theory Spec2Isabelle
  imports Main "HOL-Library.Sublist"
begin

section \<open>Python values, errors and string primitives\<close>

text \<open>
  The build script \<^verbatim>\<open>setup.py\<close> is modelled function by function.  Python strings are
  \<^typ>\<open>string\<close> (the script reads its sources as latin1, one character per byte), Python's
  unbounded integers are \<^typ>\<open>int\<close>, an exception is the left summand of a sum type.
\<close>

datatype pyval = PNone | PInt int | PStr string

datatype py_error =
    AttributeError | IndexError | TypeError | AssertionError
  | FileNotFoundError | FileExistsError | IsADirectoryError | NotADirectoryError
  | TooManyLinks | PermissionError

text \<open>Truthiness, as \<^verbatim>\<open>if v:\<close> tests it.\<close>

fun truthy :: "pyval \<Rightarrow> bool" where
  "truthy PNone = False"
| "truthy (PInt n) = (n \<noteq> 0)"
| "truthy (PStr s) = (s \<noteq> [])"

text \<open>
  The characters \<^verbatim>\<open>str.isspace\<close> accepts below code point 256; they are also what
  \<^verbatim>\<open>str.strip()\<close> removes and what the pattern \<^verbatim>\<open>\s\<close> matches.
\<close>

definition is_space :: "char \<Rightarrow> bool" where
  "is_space c =
     (c = CHR 0x09 \<or> c = CHR 0x0A \<or> c = CHR 0x0B \<or> c = CHR 0x0C \<or> c = CHR 0x0D \<or>
      c = CHR 0x1C \<or> c = CHR 0x1D \<or> c = CHR 0x1E \<or> c = CHR 0x1F \<or> c = CHR 0x20 \<or>
      c = CHR 0x85 \<or> c = CHR 0xA0)"

text \<open>The line boundaries of \<^verbatim>\<open>str.splitlines\<close> below code point 256.\<close>

definition is_linebreak :: "char \<Rightarrow> bool" where
  "is_linebreak c =
     (c = CHR 0x0A \<or> c = CHR 0x0D \<or> c = CHR 0x0B \<or> c = CHR 0x0C \<or>
      c = CHR 0x1C \<or> c = CHR 0x1D \<or> c = CHR 0x1E \<or> c = CHR 0x85)"

text \<open>
  \<^verbatim>\<open>s.splitlines()\<close>: the lines without their terminators; \<^verbatim>\<open>\r\n\<close> is one
  terminator; no empty last line after a final terminator.
\<close>

fun splitlines :: "string \<Rightarrow> string list" where
  "splitlines [] = []"
| "splitlines [c] = (if is_linebreak c then [[]] else [[c]])"
| "splitlines (c # d # cs) =
     (if c = CHR 0x0D \<and> d = CHR 0x0A then [] # splitlines cs
      else if is_linebreak c then [] # splitlines (d # cs)
      else (case splitlines (d # cs) of [] \<Rightarrow> [[c]] | l # ls \<Rightarrow> (c # l) # ls))"

text \<open>\<^verbatim>\<open>s.split(sep)\<close> for a separator of one character: never an empty list.\<close>

fun py_split :: "char \<Rightarrow> string \<Rightarrow> string list" where
  "py_split sep [] = [[]]"
| "py_split sep (c # cs) =
     (if c = sep then [] # py_split sep cs
      else (case py_split sep cs of [] \<Rightarrow> [[c]] | p # ps \<Rightarrow> (c # p) # ps))"

text \<open>\<^verbatim>\<open>s.strip(chars)\<close>, \<^verbatim>\<open>s.lstrip(chars)\<close>, with the character set as a predicate.\<close>

definition py_lstrip :: "(char \<Rightarrow> bool) \<Rightarrow> string \<Rightarrow> string" where
  "py_lstrip P s = dropWhile P s"

definition py_strip :: "(char \<Rightarrow> bool) \<Rightarrow> string \<Rightarrow> string" where
  "py_strip P s = rev (dropWhile P (rev (dropWhile P s)))"

text \<open>\<^verbatim>\<open>sep.join(xs)\<close>.\<close>

fun py_join :: "string \<Rightarrow> string list \<Rightarrow> string" where
  "py_join sep [] = []"
| "py_join sep [x] = x"
| "py_join sep (x # y # ys) = x @ sep @ py_join sep (y # ys)"

text \<open>\<^verbatim>\<open>s.find(sub)\<close>: the index of the first occurrence, or -1.\<close>

fun find_from :: "int \<Rightarrow> string \<Rightarrow> string \<Rightarrow> int" where
  "find_from i sub [] = (if sub = [] then i else - 1)"
| "find_from i sub (c # cs) = (if prefix sub (c # cs) then i else find_from (i + 1) sub cs)"

definition py_find :: "string \<Rightarrow> string \<Rightarrow> int" where
  "py_find s sub = find_from 0 sub s"

text \<open>
  \<^verbatim>\<open>s.replace(old, new)\<close>: the occurrences of \<open>old\<close> are found from the left and do not
  overlap.  An empty \<open>old\<close> matches before every character and at the end.
\<close>

fun replace_scan :: "string \<Rightarrow> string \<Rightarrow> string \<Rightarrow> string" where
  "replace_scan old new [] = []"
| "replace_scan old new (c # cs) =
     (if old \<noteq> [] \<and> prefix old (c # cs)
      then new @ replace_scan old new (drop (length old - 1) cs)
      else c # replace_scan old new cs)"

definition py_replace :: "string \<Rightarrow> string \<Rightarrow> string \<Rightarrow> string" where
  "py_replace s old new =
     (if old = [] then new @ concat (map (\<lambda>c. c # new) s) else replace_scan old new s)"

text \<open>\<^verbatim>\<open>str(n)\<close> of an integer: decimal digits, a minus sign for a negative number.\<close>

fun dec_nat :: "nat \<Rightarrow> string" where
  "dec_nat n =
     (if n < 10 then [''0123456789'' ! n]
      else dec_nat (n div 10) @ [''0123456789'' ! (n mod 10)])"

declare dec_nat.simps [simp del]

definition dec_int :: "int \<Rightarrow> string" where
  "dec_int i = (if i < 0 then CHR ''-'' # dec_nat (nat (- i)) else dec_nat (nat i))"

text \<open>\<^verbatim>\<open>'%s' % v\<close> and \<^verbatim>\<open>str(v)\<close>.\<close>

fun py_str :: "pyval \<Rightarrow> string" where
  "py_str PNone = ''None''"
| "py_str (PInt n) = dec_int n"
| "py_str (PStr s) = s"

text \<open>
  \<^verbatim>\<open>int(s)\<close> of a string: surrounding whitespace is dropped, one sign is allowed, then
  decimal digits, with single underscores between digits.  \<open>None\<close> is the ValueError.
\<close>

definition digit_val :: "char \<Rightarrow> nat option" where
  "digit_val c =
     map_of [(CHR ''0'', 0), (CHR ''1'', 1), (CHR ''2'', 2), (CHR ''3'', 3), (CHR ''4'', 4),
             (CHR ''5'', 5), (CHR ''6'', 6), (CHR ''7'', 7), (CHR ''8'', 8), (CHR ''9'', 9)] c"

fun parse_digits :: "nat \<Rightarrow> string \<Rightarrow> nat option" where
  "parse_digits acc [] = Some acc"
| "parse_digits acc [c] =
     (case digit_val c of None \<Rightarrow> None | Some v \<Rightarrow> Some (10 * acc + v))"
| "parse_digits acc (c # d # cs) =
     (if c = CHR ''_''
      then (case digit_val d of None \<Rightarrow> None | Some v \<Rightarrow> parse_digits (10 * acc + v) cs)
      else (case digit_val c of None \<Rightarrow> None | Some v \<Rightarrow> parse_digits (10 * acc + v) (d # cs)))"

definition parse_unsigned :: "string \<Rightarrow> nat option" where
  "parse_unsigned s =
     (case s of [] \<Rightarrow> None
      | c # cs \<Rightarrow> (case digit_val c of None \<Rightarrow> None | Some v \<Rightarrow> parse_digits v cs))"

definition py_int :: "string \<Rightarrow> int option" where
  "py_int s =
     (case py_strip is_space s of
        [] \<Rightarrow> None
      | c # cs \<Rightarrow>
          if c = CHR ''-'' then map_option (\<lambda>n. - int n) (parse_unsigned cs)
          else if c = CHR ''+'' then map_option int (parse_unsigned cs)
          else map_option int (parse_unsigned (c # cs)))"

text \<open>\<^verbatim>\<open>int(v)\<close> of any value the script passes; \<open>None\<close> is the exception.\<close>

fun int_of :: "pyval \<Rightarrow> int option" where
  "int_of PNone = None"
| "int_of (PInt n) = Some n"
| "int_of (PStr s) = py_int s"

text \<open>A dict in insertion order; \<^verbatim>\<open>d[k] = v\<close> keeps the place of a key already present.\<close>

type_synonym 'v dict = "(string \<times> 'v) list"

fun dict_set :: "string \<Rightarrow> 'v \<Rightarrow> 'v dict \<Rightarrow> 'v dict" where
  "dict_set k v [] = [(k, v)]"
| "dict_set k v ((k', v') # d) = (if k' = k then (k, v) # d else (k', v') # dict_set k v d)"

text \<open>\<^verbatim>\<open>d.get(k)\<close>, and equality of two dicts, which ignores the order.\<close>

definition dict_get :: "'v dict \<Rightarrow> string \<Rightarrow> 'v option" where
  "dict_get d k = map_of d k"

definition dict_eq :: "'v dict \<Rightarrow> 'v dict \<Rightarrow> bool" where
  "dict_eq a b = (map_of a = map_of b)"

section \<open>The file system and the external commands\<close>

text \<open>
  The file system is a finite map from path names to nodes.  A symbolic link holds the
  path it points to, read in the same name space.  \<^verbatim>\<open>os.path.exists\<close>, reading and
  writing follow links (at most 40 of them, as the kernel does: the 41st link of a chain
  is refused); \<^verbatim>\<open>os.unlink\<close> and \<^verbatim>\<open>os.symlink\<close> act on the name itself.  A name is the
  text that the program uses for a file: two texts for one file, such as a relative and
  an absolute path, are two names, so the model covers the runs in which every file is
  reached under one text.
\<close>

datatype node = File string | Link string | Dir

type_synonym fs = "string \<Rightarrow> node option"

fun follow :: "nat \<Rightarrow> fs \<Rightarrow> string \<Rightarrow> string option" where
  "follow 0 fs p = None"
| "follow (Suc n) fs p = (case fs p of Some (Link t) \<Rightarrow> follow n fs t | _ \<Rightarrow> Some p)"

definition realpath :: "fs \<Rightarrow> string \<Rightarrow> string option" where
  "realpath fs p = follow 41 fs p"

definition path_exists :: "fs \<Rightarrow> string \<Rightarrow> bool" where
  "path_exists fs p = (case realpath fs p of None \<Rightarrow> False | Some q \<Rightarrow> fs q \<noteq> None)"

definition path_lexists :: "fs \<Rightarrow> string \<Rightarrow> bool" where
  "path_lexists fs p = (fs p \<noteq> None)"

definition read_file :: "fs \<Rightarrow> string \<Rightarrow> py_error + string" where
  "read_file fs p =
     (case realpath fs p of
        None \<Rightarrow> Inl TooManyLinks
      | Some q \<Rightarrow>
          (case fs q of
             Some (File c) \<Rightarrow> Inr c
           | Some Dir \<Rightarrow> Inl IsADirectoryError
           | _ \<Rightarrow> Inl FileNotFoundError))"

definition write_file :: "fs \<Rightarrow> string \<Rightarrow> string \<Rightarrow> py_error + fs" where
  "write_file fs p c =
     (case realpath fs p of
        None \<Rightarrow> Inl TooManyLinks
      | Some q \<Rightarrow>
          (case fs q of
             Some Dir \<Rightarrow> Inl IsADirectoryError
           | _ \<Rightarrow> Inr (fs(q \<mapsto> File c))))"

definition unlink :: "fs \<Rightarrow> string \<Rightarrow> py_error + fs" where
  "unlink fs p =
     (case fs p of
        None \<Rightarrow> Inl FileNotFoundError
      | Some Dir \<Rightarrow> Inl IsADirectoryError
      | _ \<Rightarrow> Inr (fs(p := None)))"

text \<open>
  A text file read line by line: \<^verbatim>\<open>\r\n\<close> and \<^verbatim>\<open>\r\<close> are read as \<^verbatim>\<open>\n\<close>, and every
  line but possibly the last ends with \<^verbatim>\<open>\n\<close>.
\<close>

fun text_lines :: "string \<Rightarrow> string list" where
  "text_lines [] = []"
| "text_lines [c] = (if c = CHR 0x0D \<or> c = CHR 0x0A then [[CHR 0x0A]] else [[c]])"
| "text_lines (c # d # cs) =
     (if c = CHR 0x0D \<and> d = CHR 0x0A then [CHR 0x0A] # text_lines cs
      else if c = CHR 0x0D \<or> c = CHR 0x0A then [CHR 0x0A] # text_lines (d # cs)
      else (case text_lines (d # cs) of [] \<Rightarrow> [[c]] | l # ls \<Rightarrow> (c # l) # ls))"

section \<open>The version-control metadata\<close>

text \<open>
  The six shell commands of \<^verbatim>\<open>get_vcs_info\<close>, in the order of the source:
  \<^verbatim>\<open>git branch --show-current\<close>, the \<^verbatim>\<open>git branch --remote ... --contains | sed\<close> pipeline,
  \<^verbatim>\<open>git branch | grep '* '\<close>, \<^verbatim>\<open>git describe --always --tags\<close>,
  \<^verbatim>\<open>git rev-list --count HEAD --first-parent\<close> and \<^verbatim>\<open>git status\<close>.  The shell is any
  function from a command to its return code and its decoded standard output.
\<close>

datatype vcs_cmd =
  BranchShowCurrent | BranchRemoteContains | BranchGrep | Describe | RevListCount | GitStatus

type_synonym shell = "vcs_cmd \<Rightarrow> int \<times> string"

text \<open>
  The loop over the three branch commands: the first command that returns 0 and prints
  at least one line sets \<open>branch\<close> to its first line and ends the loop.
\<close>

fun first_branch :: "shell \<Rightarrow> vcs_cmd list \<Rightarrow> pyval" where
  "first_branch sh [] = PNone"
| "first_branch sh (cmd # cmds) =
     (case sh cmd of
        (returncode, out) \<Rightarrow>
          if returncode = 0
          then (case splitlines out of
                  [] \<Rightarrow> first_branch sh cmds
                | l # _ \<Rightarrow> PStr l)
          else first_branch sh cmds)"

text \<open>
  The inner function \<^verbatim>\<open>get_output_line\<close>: \<open>None\<close> when the command fails, else the first
  line of its output, which is an IndexError when there is no line.
\<close>

definition get_output_line :: "shell \<Rightarrow> vcs_cmd \<Rightarrow> py_error + pyval" where
  "get_output_line sh cmd =
     (case sh cmd of
        (returncode, out) \<Rightarrow>
          if returncode \<noteq> 0 then Inr PNone
          else (case splitlines out of [] \<Rightarrow> Inl IndexError | v # _ \<Rightarrow> Inr (PStr v)))"

text \<open>\<^verbatim>\<open>v.split("-")\<close>: only a string has the method.\<close>

fun split_dash :: "pyval \<Rightarrow> py_error + string list" where
  "split_dash (PStr s) = Inr (py_split CHR ''-'' s)"
| "split_dash v = Inl AttributeError"

text \<open>The scan of the \<^verbatim>\<open>git status\<close> output.\<close>

definition is_change_line :: "string \<Rightarrow> bool" where
  "is_change_line line =
     (let sline = py_strip is_space line
      in prefix ''modified: '' sline \<or> prefix ''new file:'' sline \<or> prefix ''deleted:'' sline)"

definition count_changes :: "string \<Rightarrow> int" where
  "count_changes out = int (length (filter is_change_line (splitlines out)))"

text \<open>
  \<^verbatim>\<open>get_vcs_info\<close> in its three parts.  The branch; the revision, which starts as the
  integer 0, becomes the middle part of a three-part \<^verbatim>\<open>git describe\<close> line, and on the
  branch \<^verbatim>\<open>master\<close> is whatever \<^verbatim>\<open>get_output_line\<close> returns for the commit count; and
  the number of changes.
\<close>

definition vcs_branch :: "shell \<Rightarrow> pyval" where
  "vcs_branch sh = first_branch sh [BranchShowCurrent, BranchRemoteContains, BranchGrep]"

definition vcs_revision :: "shell \<Rightarrow> py_error + pyval" where
  "vcs_revision sh =
     (case get_output_line sh Describe of
        Inl e \<Rightarrow> Inl e
      | Inr described \<Rightarrow>
          (case split_dash described of
             Inl e \<Rightarrow> Inl e
           | Inr parts \<Rightarrow>
               if vcs_branch sh = PStr ''master'' then get_output_line sh RevListCount
               else Inr (if length parts = 3 then PStr (parts ! 1) else PInt 0)))"

definition vcs_changes :: "shell \<Rightarrow> int" where
  "vcs_changes sh =
     (case sh GitStatus of
        (returncode, out) \<Rightarrow> if returncode = 0 then count_changes out else 0)"

definition get_vcs_info :: "shell \<Rightarrow> py_error + pyval dict" where
  "get_vcs_info sh =
     (let branch = vcs_branch sh;
          info0 = (if \<not> truthy branch then [] else dict_set ''BRANCH'' branch [])
      in case vcs_revision sh of
           Inl e \<Rightarrow> Inl e
         | Inr rev' \<Rightarrow>
             (let info1 =
                    (if truthy rev'
                     then (case int_of rev' of
                             None \<Rightarrow> info0
                           | Some n \<Rightarrow> dict_set ''REVISION'' (PInt n) info0)
                     else info0);
                  changes = vcs_changes sh;
                  info2 =
                    (if changes \<noteq> 0
                     then dict_set ''LOCAL_MODIFICATIONS'' (PInt changes) info1
                     else info1)
              in Inr info2))"

text \<open>
  \<^verbatim>\<open>record_vcs_info\<close> writes one line \<^verbatim>\<open>KEY=value\<close> per entry, and writes nothing at all
  when the mapping is empty.
\<close>

definition vcs_path :: string where
  "vcs_path = ''./vcs-info''"

definition vcs_line :: "string \<times> pyval \<Rightarrow> string" where
  "vcs_line kv = fst kv @ ''='' @ py_str (snd kv) @ [CHR 0x0A]"

definition record_vcs_info :: "shell \<Rightarrow> fs \<Rightarrow> py_error + fs" where
  "record_vcs_info sh fs =
     (case get_vcs_info sh of
        Inl e \<Rightarrow> Inl e
      | Inr info \<Rightarrow>
          if info \<noteq> [] then write_file fs vcs_path (concat (map vcs_line info)) else Inr fs)"

text \<open>\<^verbatim>\<open>load_vcs_info\<close>: the body of the loop over the lines, then the function.\<close>

definition load_line :: "pyval dict \<Rightarrow> string \<Rightarrow> pyval dict" where
  "load_line info line =
     (if prefix ''#'' line then info
      else (let parts = py_split CHR ''='' (py_strip (\<lambda>c. c = CHR 0x0A \<or> c = CHR 0x0D) line)
            in if length parts = 2 then dict_set (parts ! 0) (PStr (parts ! 1)) info else info))"

definition load_vcs_info :: "fs \<Rightarrow> py_error + pyval dict" where
  "load_vcs_info fs =
     (if path_exists fs vcs_path
      then (case read_file fs vcs_path of
              Inl e \<Rightarrow> Inl e
            | Inr content \<Rightarrow> Inr (foldl load_line [] (text_lines content)))
      else Inr [])"

text \<open>The loaded form of a mapping: every value as the text \<^verbatim>\<open>'%s' % v\<close> writes.\<close>

definition stringified :: "pyval dict \<Rightarrow> pyval dict" where
  "stringified info = map (\<lambda>kv. (fst kv, PStr (py_str (snd kv)))) info"

text \<open>
  Three shells for the examples: a checkout of the branch \<^verbatim>\<open>fix\<close>, 85 commits after the
  tag \<^verbatim>\<open>v4.0.6\<close>, with one modified file; a clean checkout of the same branch that sits
  on a tag named \<^verbatim>\<open>v4-0-rc\<close>; and a directory that is no checkout, where every
  \<^verbatim>\<open>git\<close> command exits with 128 and prints nothing on its standard output.
\<close>

definition sh_feature :: shell where
  "sh_feature cmd =
     (case cmd of
        BranchShowCurrent \<Rightarrow> (0, ''fix\<newline>'')
      | Describe \<Rightarrow> (0, ''v4.0.6-85-gf253d3f9d\<newline>'')
      | GitStatus \<Rightarrow> (0, ''On branch fix\<newline>        modified:   setup.py\<newline>'')
      | _ \<Rightarrow> (1, []))"


definition sh_no_checkout :: shell where
  "sh_no_checkout cmd = (128, [])"

section \<open>Paths, patterns and the state of a run\<close>

text \<open>
  \<^verbatim>\<open>os.path\<close> on a POSIX system, where the separator is \<^verbatim>\<open>/\<close>: \<^verbatim>\<open>join\<close> of two and of
  several parts (with no part at all it is a TypeError), \<^verbatim>\<open>basename\<close>, the first
  component of \<^verbatim>\<open>split\<close>, and the extension that \<^verbatim>\<open>splitext\<close> cuts off: it starts at
  the last dot of the base name, unless only dots stand before it.
\<close>

definition path_join :: "string \<Rightarrow> string \<Rightarrow> string" where
  "path_join a b =
     (if prefix ''/'' b then b
      else if a = [] \<or> suffix ''/'' a then a @ b
      else a @ ''/'' @ b)"

fun path_join_all :: "string list \<Rightarrow> py_error + string" where
  "path_join_all [] = Inl TypeError"
| "path_join_all (p # ps) = Inr (foldl path_join p ps)"

definition basename :: "string \<Rightarrow> string" where
  "basename p = rev (takeWhile (\<lambda>c. c \<noteq> CHR ''/'') (rev p))"

definition dirname :: "string \<Rightarrow> string" where
  "dirname p =
     (let head = rev (dropWhile (\<lambda>c. c \<noteq> CHR ''/'') (rev p))
      in if head \<noteq> [] \<and> \<not> list_all (\<lambda>c. c = CHR ''/'') head
         then rev (dropWhile (\<lambda>c. c = CHR ''/'') (rev head))
         else head)"

text \<open>
  \<^verbatim>\<open>os.symlink\<close> creates the name in its directory, which has to be there: a name
  without a directory part is created in the working directory.  The files that the run
  writes are written after \<^verbatim>\<open>os.makedirs\<close> or beside a file that was read.
\<close>

definition parent_error :: "fs \<Rightarrow> string \<Rightarrow> py_error option" where
  "parent_error fs p =
     (let d = dirname p
      in if d = [] then None
         else (case realpath fs d of
                 None \<Rightarrow> Some TooManyLinks
               | Some q \<Rightarrow>
                   (case fs q of
                      None \<Rightarrow> Some FileNotFoundError
                    | Some Dir \<Rightarrow> None
                    | Some nd \<Rightarrow> Some NotADirectoryError)))"

definition symlink :: "fs \<Rightarrow> string \<Rightarrow> string \<Rightarrow> py_error + fs" where
  "symlink fs target p =
     (case parent_error fs p of
        Some err \<Rightarrow> Inl err
      | None \<Rightarrow> if fs p \<noteq> None then Inl FileExistsError else Inr (fs(p \<mapsto> Link target)))"

definition splitext_ext :: "string \<Rightarrow> string" where
  "splitext_ext p =
     (let b = basename p;
          ext = rev (takeWhile (\<lambda>c. c \<noteq> CHR ''.'') (rev b));
          stem = rev (drop 1 (dropWhile (\<lambda>c. c \<noteq> CHR ''.'') (rev b)))
      in if CHR ''.'' \<in> set b \<and> \<not> list_all (\<lambda>c. c = CHR ''.'') stem
         then CHR ''.'' # ext
         else [])"

text \<open>\<^verbatim>\<open>os.path.splitext(fname)[1].lstrip(".")\<close>.\<close>

definition file_type :: "string \<Rightarrow> string" where
  "file_type fname = py_lstrip (\<lambda>c. c = CHR ''.'') (splitext_ext fname)"

text \<open>
  What a run works on: the files, the install directory (the loop replaces \<^verbatim>\<open>.\<close> by the
  working directory), and a trace of what the run printed and which commands it ran,
  in order.  Each kind of printed line is one constructor.
\<close>

datatype event =
    Symlinked string string
  | AddingVcsInfo string
  | MinifyFailed string int
  | Minified string
  | Copied string
  | BrotliError int
  | BrotliMissing string
  | Ran "string list"

record state =
  files :: fs
  trace :: "event list"
  install_dir :: string

text \<open>
  The surroundings of a run.  An external command is an oracle: from its argument list
  and the files it finds, it gives a return code, its standard output, and the content
  it writes to its output file, if it writes one.  A command writes no other file.
  \<open>expand\<close> is \<^verbatim>\<open>glob.glob\<close> on a pattern with a magic character.  \<open>walk\<close> is what
  \<^verbatim>\<open>os.walk("html5")\<close> yields: each directory with the names of its files.  \<open>startable\<close>
  tells whether \<^verbatim>\<open>Popen\<close> can start a command: the file is a program that the user may
  execute.
\<close>

record tool_result =
  returncode :: int
  stdout_text :: string
  written :: "string option"

record env =
  run :: "string list \<Rightarrow> fs \<Rightarrow> tool_result"
  expand :: "fs \<Rightarrow> string \<Rightarrow> string list"
  walk :: "(string \<times> string list) list"
  cwd :: string
  path_dirs :: "string list"
  yui_jar :: "string option"
  java_cmd :: string
  startable :: "string list \<Rightarrow> fs \<Rightarrow> bool"

text \<open>
  \<^verbatim>\<open>get_status_output(cmd)\<close>, with the path of the file that \<open>cmd\<close> writes: a command that
  cannot be started has the return code -1 and writes nothing.
\<close>

definition get_status_output ::
  "env \<Rightarrow> string list \<Rightarrow> string \<Rightarrow> state \<Rightarrow> (int \<times> string) \<times> state" where
  "get_status_output e cmd target s =
     (let r = run e cmd (files s)
      in ((returncode r, stdout_text r),
          s\<lparr>files := (case written r of
                         None \<Rightarrow> files s
                       | Some c \<Rightarrow> (files s)(target \<mapsto> File c)),
            trace := trace s @ [Ran cmd]\<rparr>))"

text \<open>
  \<^verbatim>\<open>glob.glob\<close>: a pattern with none of the characters \<^verbatim>\<open>*\<close>, \<^verbatim>\<open>?\<close>, \<^verbatim>\<open>[\<close> matches
  itself when the name exists (a dangling link counts).
\<close>

definition has_magic :: "string \<Rightarrow> bool" where
  "has_magic p = list_ex (\<lambda>c. c = CHR ''*'' \<or> c = CHR ''?'' \<or> c = CHR ''['') p"

definition py_glob :: "env \<Rightarrow> fs \<Rightarrow> string \<Rightarrow> string list" where
  "py_glob e fs p =
     (if has_magic p then expand e fs p else if path_lexists fs p then [p] else [])"

section \<open>The symlink resolver\<close>

text \<open>
  \<^verbatim>\<open>install_symlink\<close>.  The test \<^verbatim>\<open>if symlink_option.find("*"):\<close> is on the integer that
  \<^verbatim>\<open>find\<close> returns, so it holds for every index but 0, and for -1.  \<^verbatim>\<open>continue\<close> is the
  recursive call on the remaining candidates.
\<close>

fun install_symlink :: "env \<Rightarrow> string list \<Rightarrow> string \<Rightarrow> state \<Rightarrow> py_error + (bool \<times> state)" where
  "install_symlink e [] dst s = Inr (False, s)"
| "install_symlink e (symlink_option # others) dst s =
     (case (if py_find symlink_option ''*'' \<noteq> 0
            then (case py_glob e (files s) symlink_option of
                    [] \<Rightarrow> None
                  | m # _ \<Rightarrow> Some m)
            else Some symlink_option) of
        None \<Rightarrow> install_symlink e others dst s
      | Some option \<Rightarrow>
          if path_exists (files s) option
          then (let s1 = s\<lparr>trace := trace s @ [Symlinked dst option]\<rparr>
                in case (if path_exists (files s1) dst then unlink (files s1) dst
                         else Inr (files s1)) of
                     Inl err \<Rightarrow> Inl err
                   | Inr fs1 \<Rightarrow>
                       (case symlink fs1 option dst of
                          Inl err \<Rightarrow> Inl err
                        | Inr fs2 \<Rightarrow> Inr (True, s1\<lparr>files := fs2\<rparr>)))
          else install_symlink e others dst s)"

section \<open>The source transformer\<close>

text \<open>
  The four patterns of the syntax downleveling are sequences of three kinds of atoms:
  \<^verbatim>\<open>\s*\<close>, \<^verbatim>\<open>\s+\<close> and a literal.  Every pattern starts with \<^verbatim>\<open>^\<close>, so it can match only at
  the start of the line.  A run of whitespace is followed by a literal that starts with
  no whitespace, or ends the pattern, so the longest run is the only one that can
  match: \<open>match_atoms\<close> gives what is left of the line after the match.
\<close>

datatype atom = Spaces | Spaces1 | Lit string

fun match_atoms :: "atom list \<Rightarrow> string \<Rightarrow> string option" where
  "match_atoms [] s = Some s"
| "match_atoms (Spaces # atoms) s = match_atoms atoms (dropWhile is_space s)"
| "match_atoms (Spaces1 # atoms) s =
     (case s of
        [] \<Rightarrow> None
      | c # cs \<Rightarrow> if is_space c then match_atoms atoms (dropWhile is_space cs) else None)"
| "match_atoms (Lit l # atoms) s =
     (if prefix l s then match_atoms atoms (drop (length l) s) else None)"

text \<open>\<^verbatim>\<open>p.sub(replacewith, line)\<close> for such a pattern.\<close>

definition re_sub :: "atom list \<Rightarrow> string \<Rightarrow> string \<Rightarrow> string" where
  "re_sub p replacewith line =
     (case match_atoms p line of None \<Rightarrow> line | Some rest \<Rightarrow> replacewith @ rest)"

definition downlevel_rules :: "(atom list \<times> string) list" where
  "downlevel_rules =
     [([Spaces, Lit ''for'', Spaces, Lit ''('', Spaces, Lit ''let'', Spaces1], ''for(var ''),
      ([Spaces, Lit ''let'', Spaces1], ''var ''),
      ([Spaces, Lit ''for'', Spaces, Lit ''('', Spaces, Lit ''const'', Spaces1], ''for(var ''),
      ([Spaces, Lit ''const'', Spaces1], ''var '')]"

text \<open>One pattern over all the lines, joined again with \<^verbatim>\<open>\n\<close>; then the four in turn.\<close>

definition downlevel_pass :: "string \<Rightarrow> atom list \<times> string \<Rightarrow> string" where
  "downlevel_pass data rule =
     py_join [CHR 0x0A] (map (re_sub (fst rule) (snd rule)) (splitlines data))"

definition downlevel :: "string \<Rightarrow> string" where
  "downlevel data = foldl downlevel_pass data downlevel_rules"

text \<open>
  The version stamping: \<^verbatim>\<open>info.get(k)\<close> is \<open>None\<close> for an absent key, and a field is
  replaced only when its value is truthy.
\<close>

definition info_get :: "pyval dict \<Rightarrow> string \<Rightarrow> pyval" where
  "info_get info k = (case dict_get info k of None \<Rightarrow> PNone | Some v \<Rightarrow> v)"

definition revision_literal :: string where
  "revision_literal = ''REVISION : 0,''"

definition local_modifications_literal :: string where
  "local_modifications_literal = ''LOCAL_MODIFICATIONS : 0,''"

definition branch_literal :: string where
  "branch_literal = ''BRANCH : '' @ [CHR 0x22] @ ''master'' @ [CHR 0x22] @ '',''"

definition stamp :: "pyval dict \<Rightarrow> string \<Rightarrow> string" where
  "stamp info data =
     (let REVISION = info_get info ''REVISION'';
          data1 = (if truthy REVISION
                   then py_replace data revision_literal
                          (''REVISION : '' @ py_str REVISION @ '','')
                   else data);
          LOCAL_MODIFICATIONS = info_get info ''LOCAL_MODIFICATIONS'';
          data2 = (if truthy LOCAL_MODIFICATIONS
                   then py_replace data1 local_modifications_literal
                          (''LOCAL_MODIFICATIONS : '' @ py_str LOCAL_MODIFICATIONS @ '','')
                   else data1);
          BRANCH = info_get info ''BRANCH''
      in if truthy BRANCH
         then py_replace data2 branch_literal
                (''BRANCH : '' @ [CHR 0x22] @ py_str BRANCH @ [CHR 0x22] @ '','')
         else data2)"

text \<open>
  The text that is installed for a script or for \<^verbatim>\<open>index.html\<close>: stamped when the file is
  \<^verbatim>\<open>Utilities.js\<close> and the mapping is not empty, then downlevelled.
\<close>

definition stamped :: "string \<Rightarrow> pyval dict \<Rightarrow> string \<Rightarrow> string" where
  "stamped bname info odata =
     (if bname = ''Utilities.js'' \<and> info \<noteq> [] then stamp info odata else odata)"

definition transformed :: "string \<Rightarrow> pyval dict \<Rightarrow> string \<Rightarrow> string" where
  "transformed bname info odata = downlevel (stamped bname info odata)"

section \<open>The pipeline\<close>

text \<open>An exception ends what follows it.\<close>

fun ebind :: "'e + 'a \<Rightarrow> ('a \<Rightarrow> 'e + 'b) \<Rightarrow> 'e + 'b" where
  "ebind (Inl err) f = Inl err"
| "ebind (Inr x) f = f x"

text \<open>
  \<^verbatim>\<open>os.chmod\<close> needs the file; \<^verbatim>\<open>shutil.copyfile\<close> reads one file and writes the other;
  \<^verbatim>\<open>os.makedirs\<close> fails on a name that is taken.  \<open>remove_existing\<close> is the recurring
  \<^verbatim>\<open>if os.path.exists(p): os.unlink(p)\<close>.
\<close>

definition chmod :: "fs \<Rightarrow> string \<Rightarrow> py_error + fs" where
  "chmod fs p = (if path_exists fs p then Inr fs else Inl FileNotFoundError)"

definition copyfile :: "fs \<Rightarrow> string \<Rightarrow> string \<Rightarrow> py_error + fs" where
  "copyfile fs src dst = ebind (read_file fs src) (\<lambda>content. write_file fs dst content)"

definition makedirs :: "fs \<Rightarrow> string \<Rightarrow> py_error + fs" where
  "makedirs fs d = (if fs d \<noteq> None then Inl FileExistsError else Inr (fs(d \<mapsto> Dir)))"

definition remove_existing :: "fs \<Rightarrow> string \<Rightarrow> py_error + fs" where
  "remove_existing fs p = (if path_exists fs p then unlink fs p else Inr fs)"

text \<open>
  The arguments of \<^verbatim>\<open>install_html5\<close> and what it computes before the loop: the loaded
  metadata, and the brotli command with its version.
\<close>

record settings =
  minifier :: "string option"
  gzip :: bool
  brotli :: bool
  brotli_cmd :: "string option"
  brotli_version :: "string option"
  vcs_info :: "pyval dict"

text \<open>Comparison of strings, character by character: \<open>str_le a b\<close> is \<^verbatim>\<open>a <= b\<close>.\<close>

fun str_le :: "string \<Rightarrow> string \<Rightarrow> bool" where
  "str_le [] b = True"
| "str_le (x # xs) [] = False"
| "str_le (x # xs) (y # ys) =
     ((of_char x :: nat) < of_char y \<or> (x = y \<and> str_le xs ys))"

text \<open>
  The search for brotli on the directories of \<^verbatim>\<open>$PATH\<close> and \<^verbatim>\<open>/usr/local/bin\<close>: the first
  directory that has the file ends the search; its version is known only if
  \<^verbatim>\<open>brotli --version\<close> returns 0.  The \<^verbatim>\<open>Popen\<close> of this command is not in a \<^verbatim>\<open>try\<close>: a
  file that cannot be started ends the run.
\<close>

fun find_brotli ::
  "env \<Rightarrow> fs \<Rightarrow> string list \<Rightarrow> py_error + (string option \<times> string option)" where
  "find_brotli e fs [] = Inr (None, None)"
| "find_brotli e fs (x # xs) =
     (let br = path_join x ''brotli''
      in if path_exists fs br
         then (if startable e [br, ''--version''] fs
               then (let r = run e [br, ''--version''] fs
                     in Inr (Some br,
                             if returncode r = 0
                             then Some (py_strip (\<lambda>c. c = CHR 0x0A \<or> c = CHR 0x0D)
                                          (stdout_text r))
                             else None))
               else Inl PermissionError)
         else find_brotli e fs xs)"

text \<open>The table of system copies, and \<^verbatim>\<open>symlinks.get(name, [])\<close>.\<close>

definition symlinks :: "(string \<times> string list) list" where
  "symlinks =
     [(''jquery.js'',
       [''/usr/share/javascript/jquery/jquery.js'',
        ''/usr/share/javascript/jquery/latest/jquery.js'',
        ''/usr/share/javascript/jquery/3/jquery.js'']),
      (''jquery-ui.js'',
       [''/usr/share/javascript/jquery-ui/jquery-ui.js'',
        ''/usr/share/javascript/jquery-ui/latest/jquery-ui.js'',
        ''/usr/share/javascript/jquery-ui/3/jquery-ui.js''])]"

definition symlink_options_of :: "string \<Rightarrow> string list" where
  "symlink_options_of name = (case map_of symlinks name of None \<Rightarrow> [] | Some opts \<Rightarrow> opts)"

text \<open>
  \<^verbatim>\<open>glob_recurse\<close>: every file of the walk under the name of its directory without the
  prefix \<^verbatim>\<open>srcdir/\<close>; \<open>dict_append\<close> is \<^verbatim>\<open>m.setdefault(k, []).append(x)\<close>.
\<close>

fun dict_append :: "string \<Rightarrow> 'a \<Rightarrow> 'a list dict \<Rightarrow> 'a list dict" where
  "dict_append k x [] = [(k, [x])]"
| "dict_append k x ((k', xs) # d) =
     (if k' = k then (k, xs @ [x]) # d else (k', xs) # dict_append k x d)"

definition glob_recurse :: "string \<Rightarrow> (string \<times> string list) list \<Rightarrow> string list dict" where
  "glob_recurse srcdir w =
     foldl (\<lambda>m entry.
              foldl (\<lambda>m f. dict_append (drop (length srcdir + 1) (fst entry))
                                        (path_join (fst entry) f) m)
                    m (snd entry))
           [] w"

text \<open>
  The transformation of one source (lines 204 to 240): the file to install from is the
  source itself, or a sibling \<^verbatim>\<open>.tmp\<close> file with the changed text.
\<close>

definition transform_source ::
  "settings \<Rightarrow> string \<Rightarrow> string \<Rightarrow> string \<Rightarrow> string \<Rightarrow> state \<Rightarrow> py_error + (string \<times> state)" where
  "transform_source cfg src fname ftype bname s =
     (if ftype = ''js'' \<or> suffix ''index.html'' fname
      then ebind (read_file (files s) src)
             (\<lambda>odata.
                let s1 = (if bname = ''Utilities.js'' \<and> vcs_info cfg \<noteq> []
                          then s\<lparr>trace := trace s @ [AddingVcsInfo bname]\<rparr> else s);
                    data = transformed bname (vcs_info cfg) odata
                in if data \<noteq> odata
                   then ebind (write_file (files s1) (src @ ''.tmp'') data)
                          (\<lambda>fs1. ebind (chmod fs1 (src @ ''.tmp''))
                             (\<lambda>fs2. Inr (src @ ''.tmp'', s1\<lparr>files := fs2\<rparr>)))
                   else Inr (src, s1))
      else Inr (src, s))"

text \<open>The minifier (lines 242 to 275).\<close>

definition wants_minify :: "string option \<Rightarrow> bool" where
  "wants_minify m = (case m of None \<Rightarrow> False | Some name \<Rightarrow> name \<noteq> [] \<and> name \<noteq> ''copy'')"

definition minify_cmd :: "env \<Rightarrow> string \<Rightarrow> string \<Rightarrow> string \<Rightarrow> string \<Rightarrow> py_error + string list" where
  "minify_cmd e name fsrc dst ftype =
     (if name = ''uglifyjs'' then Inr [''uglifyjs'', fsrc, ''-o'', dst, ''--compress'']
      else if name \<noteq> ''yuicompressor'' then Inl AssertionError
      else Inr ((case yui_jar e of
                   Some jar \<Rightarrow> [java_cmd e, ''-jar'', jar]
                 | None \<Rightarrow> [''yuicompressor''])
                @ [fsrc, ''--nomunge'', ''--line-break'', ''400'', ''--type'', ftype, ''-o'', dst]))"

definition minify_or_copy ::
  "env \<Rightarrow> settings \<Rightarrow> string \<Rightarrow> string \<Rightarrow> string \<Rightarrow> string \<Rightarrow> string \<Rightarrow> state \<Rightarrow> py_error + state" where
  "minify_or_copy e cfg fname bname ftype fsrc dst s =
     (if wants_minify (minifier cfg) \<and> ftype = ''js''
      then ebind (minify_cmd e (case minifier cfg of Some name \<Rightarrow> name | None \<Rightarrow> []) fsrc dst ftype)
             (\<lambda>cmd.
                case get_status_output e cmd dst s of
                  ((r, out), s1) \<Rightarrow>
                    ebind (if r \<noteq> 0
                           then (let s1' = s1\<lparr>trace := trace s1 @ [MinifyFailed bname r]\<rparr>
                                 in ebind (copyfile (files s1') fsrc dst)
                                      (\<lambda>fs1. Inr (s1'\<lparr>files := fs1\<rparr>)))
                           else Inr s1)
                      (\<lambda>s2. ebind (chmod (files s2) dst)
                         (\<lambda>fs3. Inr (s2\<lparr>files := fs3, trace := trace s2 @ [Minified fname]\<rparr>))))
      else (let s1 = s\<lparr>trace := trace s @ [Copied fname]\<rparr>
            in ebind (copyfile (files s1) fsrc dst)
                 (\<lambda>fs1. ebind (chmod fs1 dst) (\<lambda>fs2. Inr (s1\<lparr>files := fs2\<rparr>)))))"

text \<open>
  The compression (lines 280 to 308).  The step for gzip; the step for brotli, whose
  \<^verbatim>\<open>break\<close> after a sidecar that exists leaves the innermost enclosing loop, which is the
  loop over the files of the directory; and the two under the test on the file type.
\<close>

datatype ctl = Next | Break

definition gzip_cmd :: "string \<Rightarrow> string list" where
  "gzip_cmd dst = [''gzip'', ''-f'', ''-n'', ''-9'', ''-k'', dst]"

definition gzip_step :: "env \<Rightarrow> string \<Rightarrow> state \<Rightarrow> py_error + state" where
  "gzip_step e dst s =
     (let gzip_dst = dst @ ''.gz''
      in ebind (remove_existing (files s) gzip_dst)
           (\<lambda>fs1.
              case get_status_output e (gzip_cmd dst) gzip_dst (s\<lparr>files := fs1\<rparr>) of
                (r, s2) \<Rightarrow>
                  ebind (if path_exists (files s2) gzip_dst then chmod (files s2) gzip_dst
                         else Inr (files s2))
                    (\<lambda>fs3. Inr (s2\<lparr>files := fs3\<rparr>))))"

definition brotli_args :: "settings \<Rightarrow> string \<Rightarrow> string \<Rightarrow> string list" where
  "brotli_args cfg bc dst =
     (if (case brotli_version cfg of None \<Rightarrow> False | Some v \<Rightarrow> v \<noteq> [] \<and> str_le ''1'' v)
      then [bc, ''-k'', dst]
      else [bc, ''--input'', dst, ''--output'', dst @ ''.br''])"

definition brotli_step :: "env \<Rightarrow> settings \<Rightarrow> string \<Rightarrow> string \<Rightarrow> state \<Rightarrow> py_error + ctl \<times> state" where
  "brotli_step e cfg bc dst s =
     (let br_dst = dst @ ''.br''
      in ebind (remove_existing (files s) br_dst)
           (\<lambda>fs1.
              case get_status_output e (brotli_args cfg bc dst) br_dst (s\<lparr>files := fs1\<rparr>) of
                ((code, out), s2) \<Rightarrow>
                  if code \<noteq> 0 then Inr (Next, s2\<lparr>trace := trace s2 @ [BrotliError code]\<rparr>)
                  else if path_exists (files s2) br_dst
                  then ebind (chmod (files s2) br_dst) (\<lambda>fs3. Inr (Break, s2\<lparr>files := fs3\<rparr>))
                  else Inr (Next, s2\<lparr>trace := trace s2 @ [BrotliMissing br_dst]\<rparr>)))"

definition brotli_found :: "settings \<Rightarrow> bool" where
  "brotli_found cfg =
     (brotli cfg \<and> (case brotli_cmd cfg of None \<Rightarrow> False | Some bc \<Rightarrow> bc \<noteq> []))"

definition compress :: "env \<Rightarrow> settings \<Rightarrow> string \<Rightarrow> string \<Rightarrow> state \<Rightarrow> py_error + ctl \<times> state" where
  "compress e cfg ftype dst s =
     (if ftype = ''png'' then Inr (Next, s)
      else ebind (if gzip cfg then gzip_step e dst s else Inr s)
             (\<lambda>s1. if brotli_found cfg
                    then brotli_step e cfg (case brotli_cmd cfg of Some bc \<Rightarrow> bc | None \<Rightarrow> []) dst s1
                    else Inr (Next, s1)))"

text \<open>
  The body of the loop for a file that was not symlinked (lines 198 to 308), and the
  whole body (lines 182 to 308): \<^verbatim>\<open>continue\<close> and the end of the body are \<open>Next\<close>.
\<close>

definition install_asset ::
  "env \<Rightarrow> settings \<Rightarrow> string \<Rightarrow> string \<Rightarrow> string \<Rightarrow> state \<Rightarrow> py_error + ctl \<times> state" where
  "install_asset e cfg src fname dst s =
     (let ddir = dirname dst
      in ebind (if ddir \<noteq> [] \<and> \<not> path_exists (files s) ddir then makedirs (files s) ddir
                else Inr (files s))
           (\<lambda>fs1.
              let ftype = file_type fname;
                  bname = basename src
              in ebind (transform_source cfg src fname ftype bname (s\<lparr>files := fs1\<rparr>))
                   (\<lambda>(fsrc, s2).
                      ebind (minify_or_copy e cfg fname bname ftype fsrc dst s2)
                        (\<lambda>s3. ebind (if fsrc \<noteq> src then unlink (files s3) fsrc
                                      else Inr (files s3))
                           (\<lambda>fs4. compress e cfg ftype dst (s3\<lparr>files := fs4\<rparr>))))))"

definition relative_name :: "string \<Rightarrow> py_error + string" where
  "relative_name fname =
     (case py_split CHR ''/'' fname of
        [] \<Rightarrow> Inr fname
      | p # ps \<Rightarrow> if p = ''html5'' then path_join_all ps else Inr fname)"

definition install_file :: "env \<Rightarrow> settings \<Rightarrow> state \<Rightarrow> string \<Rightarrow> py_error + ctl \<times> state" where
  "install_file e cfg s fname0 =
     (if suffix ''.tmp'' fname0 then Inr (Next, s)
      else (let src = path_join (cwd e) fname0
            in ebind (relative_name fname0)
                 (\<lambda>fname.
                    let s1 = (if install_dir s = ''.'' then s\<lparr>install_dir := cwd e\<rparr> else s);
                        dst = path_join (install_dir s1) fname
                    in ebind (remove_existing (files s1) dst)
                         (\<lambda>fs1.
                            ebind (install_symlink e (symlink_options_of (basename fname)) dst
                                     (s1\<lparr>files := fs1\<rparr>))
                              (\<lambda>(linked, s2).
                                 if linked then Inr (Next, s2)
                                 else install_asset e cfg src fname dst s2)))))"

text \<open>The loop over the files of one directory, and the loop over the directories.\<close>

fun install_files :: "env \<Rightarrow> settings \<Rightarrow> state \<Rightarrow> string list \<Rightarrow> py_error + state" where
  "install_files e cfg s [] = Inr s"
| "install_files e cfg s (fname # fnames) =
     (case install_file e cfg s fname of
        Inl err \<Rightarrow> Inl err
      | Inr (Break, s') \<Rightarrow> Inr s'
      | Inr (Next, s') \<Rightarrow> install_files e cfg s' fnames)"

fun install_dirs :: "env \<Rightarrow> settings \<Rightarrow> state \<Rightarrow> string list dict \<Rightarrow> py_error + state" where
  "install_dirs e cfg s [] = Inr s"
| "install_dirs e cfg s (kfiles # dirs) =
     ebind (install_files e cfg s (snd kfiles)) (\<lambda>s'. install_dirs e cfg s' dirs)"

text \<open>The last step: one link for the desktop background, from five candidates.\<close>

definition background_paths :: "string list" where
  "background_paths =
     [''/usr/share/backgrounds/images/default.png'',
      ''/usr/share/backgrounds/images/*default*.png'',
      ''/usr/share/backgrounds/*default*png'',
      ''/usr/share/backgrounds/gnome/adwaita*.jpg'',
      ''/usr/share/backgrounds/images/*jpg'']"

text \<open>
  \<^verbatim>\<open>install_html5\<close> on a POSIX system.  The lines it prints before the loop are left out
  of the trace.
\<close>

definition install_html5 ::
  "env \<Rightarrow> string \<Rightarrow> string option \<Rightarrow> bool \<Rightarrow> bool \<Rightarrow> fs \<Rightarrow> py_error + state" where
  "install_html5 e idir mini gz br fs0 =
     ebind (load_vcs_info fs0)
       (\<lambda>loaded.
          ebind (if br then find_brotli e fs0 (path_dirs e @ [''/usr/local/bin''])
                 else Inr (None, None))
            (\<lambda>found.
               let cfg = \<lparr>minifier = mini, gzip = gz, brotli = br, brotli_cmd = fst found,
                          brotli_version = snd found, vcs_info = loaded\<rparr>
               in ebind (install_dirs e cfg \<lparr>files = fs0, trace = [], install_dir = idir\<rparr>
                           (glob_recurse ''html5'' (walk e)))
                    (\<lambda>s. ebind (install_symlink e background_paths
                                    (path_join (install_dir s) ''background.png'') s)
                             (\<lambda>(linked, s'). Inr s'))))"

section \<open>Notions used in the properties\<close>

text \<open>
  When \<^verbatim>\<open>install_symlink\<close> can replace the destination: the name has no directory part
  or its directory is there, and the name is free, or it exists (through its links) and
  is not a directory itself.  A dangling link makes \<^verbatim>\<open>os.symlink\<close> fail, a directory
  makes \<^verbatim>\<open>os.unlink\<close> fail.
\<close>

definition dst_clear :: "fs \<Rightarrow> string \<Rightarrow> bool" where
  "dst_clear fs dst =
     ((dirname dst = [] \<or> fs (dirname dst) = Some Dir) \<and>
      (case fs dst of None \<Rightarrow> True | Some Dir \<Rightarrow> False | Some nd \<Rightarrow> path_exists fs dst))"

text \<open>
  Surroundings for the examples of the resolver: no command writes anything, and the
  pattern \<^verbatim>\<open>*.js\<close> matches the file \<^verbatim>\<open>jquery.js\<close> of the working directory when it is
  there.
\<close>

definition quiet_run :: "string list \<Rightarrow> fs \<Rightarrow> tool_result" where
  "quiet_run cmd fs = \<lparr>returncode = 0, stdout_text = [], written = None\<rparr>"

definition env_star :: env where
  "env_star =
     \<lparr>run = quiet_run,
      expand = (\<lambda>fs p. if p = ''*.js'' then filter (\<lambda>q. fs q \<noteq> None) [''jquery.js''] else []),
      walk = [], cwd = ''/src'', path_dirs = [], yui_jar = None, java_cmd = ''java'',
      startable = (\<lambda>cmd fs. True)\<rparr>"

definition st_star :: state where
  "st_star = \<lparr>files = [''jquery.js'' \<mapsto> File ''jq''], trace = [], install_dir = ''www''\<rparr>"

definition st_latest :: state where
  "st_latest =
     \<lparr>files = [''/usr/share/javascript/jquery/latest/jquery.js'' \<mapsto> File ''jq'',
               ''www'' \<mapsto> Dir],
      trace = [], install_dir = ''www''\<rparr>"

definition st_both :: state where
  "st_both =
     \<lparr>files = [''/usr/share/javascript/jquery/jquery.js'' \<mapsto> File ''jq1'',
               ''/usr/share/javascript/jquery/latest/jquery.js'' \<mapsto> File ''jq2'',
               ''www'' \<mapsto> Dir],
      trace = [], install_dir = ''www''\<rparr>"

definition st_none :: state where
  "st_none = \<lparr>files = [''www'' \<mapsto> Dir], trace = [], install_dir = ''www''\<rparr>"

text \<open>
  Two strings do not overlap when no occurrence of the first can share a position with an
  occurrence of the second: no non-empty end of one starts the other, and neither lies
  inside the other.
\<close>

definition apart :: "string \<Rightarrow> string \<Rightarrow> bool" where
  "apart old lit =
     (list_all (\<lambda>t. t = [] \<or> (\<not> prefix old t \<and> \<not> prefix t old)) (suffixes lit) \<and>
      list_all (\<lambda>t. t = [] \<or> (\<not> prefix lit t \<and> \<not> prefix t lit)) (suffixes old))"

text \<open>
  What the four passes do to one line, and what joining and splitting again does to the
  list of lines: an empty last line is lost.
\<close>

definition downlevel_line :: "string \<Rightarrow> string" where
  "downlevel_line line = foldl (\<lambda>l rule. re_sub (fst rule) (snd rule) l) line downlevel_rules"

definition drop_last_empty :: "string list \<Rightarrow> string list" where
  "drop_last_empty ls = (if ls \<noteq> [] \<and> last ls = [] then butlast ls else ls)"

text \<open>
  A string that starts with a capital letter and occurs in a line still occurs in the
  line after a pattern was applied: no pattern matches a capital letter.
\<close>

definition capital_start :: "string \<Rightarrow> bool" where
  "capital_start lit = (case lit of [] \<Rightarrow> False | c # cs \<Rightarrow> c \<in> set ''ABCDEFGHIJKLMNOPQRSTUVWXYZ'')"

text \<open>
  A sidecar path that the compression can regenerate: nothing is there, or a regular
  file.  \<open>tool_files\<close> is what a command leaves that finds the files without its output
  file: the output file with what the command writes, or no output file.  \<open>commands\<close>
  are the commands of a trace, in order.
\<close>

definition regular_or_absent :: "fs \<Rightarrow> string \<Rightarrow> bool" where
  "regular_or_absent fs p = (case fs p of None \<Rightarrow> True | Some (File c) \<Rightarrow> True | Some nd \<Rightarrow> False)"

definition tool_files :: "env \<Rightarrow> string list \<Rightarrow> string \<Rightarrow> fs \<Rightarrow> fs" where
  "tool_files e cmd target fs =
     (case written (run e cmd (fs(target := None))) of
        None \<Rightarrow> fs(target := None)
      | Some c \<Rightarrow> fs(target \<mapsto> File c))"

definition commands :: "event list \<Rightarrow> string list list" where
  "commands tr = concat (map (\<lambda>ev. case ev of Ran cmd \<Rightarrow> [cmd] | _ \<Rightarrow> []) tr)"

definition located :: "settings \<Rightarrow> string" where
  "located cfg = (case brotli_cmd cfg of Some bc \<Rightarrow> bc | None \<Rightarrow> [])"

definition gzipped :: "env \<Rightarrow> settings \<Rightarrow> string \<Rightarrow> fs \<Rightarrow> fs" where
  "gzipped e cfg dst fs =
     (if gzip cfg then tool_files e (gzip_cmd dst) (dst @ ''.gz'') fs else fs)"

text \<open>
  Surroundings for the examples of a run: the directory \<^verbatim>\<open>html5\<close> has the two style sheets
  \<^verbatim>\<open>a.css\<close> and \<^verbatim>\<open>b.css\<close>, \<^verbatim>\<open>gzip\<close> and \<^verbatim>\<open>/usr/bin/brotli\<close> return 0 and write their
  sidecar, and no pattern matches a file.
\<close>

definition tools :: "string list \<Rightarrow> fs \<Rightarrow> tool_result" where
  "tools cmd fs =
     (if cmd = [''/usr/bin/brotli'', ''--version'']
      then \<lparr>returncode = 0, stdout_text = ''brotli 1.0.9'' @ [CHR 0x0A], written = None\<rparr>
      else if take 1 cmd = [''gzip'']
      then \<lparr>returncode = 0, stdout_text = [], written = Some ''gz''\<rparr>
      else if take 1 cmd = [''/usr/bin/brotli'']
      then \<lparr>returncode = 0, stdout_text = [], written = Some ''br''\<rparr>
      else \<lparr>returncode = 1, stdout_text = [], written = None\<rparr>)"

definition env_run :: env where
  "env_run =
     \<lparr>run = tools, expand = (\<lambda>fs p. []), walk = [(''html5'', [''a.css'', ''b.css''])],
      cwd = ''/src'', path_dirs = [''/usr/bin''], yui_jar = None, java_cmd = ''java'',
      startable = (\<lambda>cmd fs. True)\<rparr>"

definition fs_sources :: fs where
  "fs_sources =
     [''/src/html5/a.css'' \<mapsto> File ''a {}'', ''/src/html5/b.css'' \<mapsto> File ''b {}'',
      ''www'' \<mapsto> Dir]"

definition fs_run :: fs where
  "fs_run = fs_sources(''/usr/bin/brotli'' \<mapsto> File ''elf'')"

text \<open>
  The same files after brotli was removed from the system, with a \<^verbatim>\<open>.br\<close> sidecar that
  an earlier run left.
\<close>

definition fs_stale :: fs where
  "fs_stale = fs_sources(''www/a.css.br'' \<mapsto> File ''old'')"

text \<open>
  Settings with both compressions on and brotli located, and a state with an installed
  file and its two sidecars of an earlier run.
\<close>

definition cfg_all :: settings where
  "cfg_all =
     \<lparr>minifier = Some ''copy'', gzip = True, brotli = True,
      brotli_cmd = Some ''/usr/bin/brotli'', brotli_version = Some ''brotli 1.0.9'',
      vcs_info = []\<rparr>"

definition st_sidecars :: state where
  "st_sidecars =
     \<lparr>files = [''www/logo.jpg'' \<mapsto> File ''jfif'', ''www/logo.jpg.gz'' \<mapsto> File ''old'',
               ''www/logo.jpg.br'' \<mapsto> File ''old''],
      trace = [], install_dir = ''www''\<rparr>"

text \<open>
  A destination in the install directory that an earlier run linked to the first
  candidate, which is gone since: only the second candidate exists.
\<close>

definition st_dangling :: state where
  "st_dangling =
     \<lparr>files = [''/usr/share/javascript/jquery/latest/jquery.js'' \<mapsto> File ''jq'',
               ''www'' \<mapsto> Dir,
               ''www/jquery.js'' \<mapsto> Link ''/usr/share/javascript/jquery/jquery.js''],
      trace = [], install_dir = ''www''\<rparr>"

definition st_run :: state where
  "st_run = \<lparr>files = fs_run, trace = [], install_dir = ''www''\<rparr>"

text \<open>
  The shapes of a line that the patterns match, read from the first character after the
  indentation: the keyword with a whitespace character behind it; and \<^verbatim>\<open>for\<close>, an opening
  parenthesis and the keyword with a whitespace character behind it, with any whitespace
  between the three.
\<close>

definition keyword_at :: "string \<Rightarrow> string \<Rightarrow> bool" where
  "keyword_at kw t =
     (prefix kw t \<and> (case drop (length kw) t of [] \<Rightarrow> False | c # cs \<Rightarrow> is_space c))"

definition for_keyword_at :: "string \<Rightarrow> string \<Rightarrow> bool" where
  "for_keyword_at kw t =
     (prefix ''for'' t \<and>
      (let u = dropWhile is_space (drop (length ''for'') t)
       in prefix ''('' u \<and> keyword_at kw (dropWhile is_space (drop (length ''('') u))))"


section \<open>Facts about the primitives\<close>

lemma splitlines_no_break_all: "\<forall>l\<in>set (splitlines s). \<forall>c\<in>set l. \<not> is_linebreak c"
proof (induction s rule: splitlines.induct)
  case 1
  then show ?case by simp
next
  case (2 c)
  then show ?case by simp
next
  case (3 c d cs)
  show ?case
  proof (cases "c = CHR 0x0D \<and> d = CHR 0x0A")
    case True
    with 3 show ?thesis by simp
  next
    case False
    note nocrlf = this
    show ?thesis
    proof (cases "is_linebreak c")
      case True
      with nocrlf 3 show ?thesis by auto
    next
      case False
      with nocrlf 3(3) have ih: "\<forall>l\<in>set (splitlines (d # cs)). \<forall>c\<in>set l. \<not> is_linebreak c"
        by blast
      show ?thesis
      proof (cases "splitlines (d # cs)")
        case Nil
        with nocrlf False show ?thesis by auto
      next
        case (Cons l ls)
        with ih have "\<forall>c\<in>set l. \<not> is_linebreak c" "\<forall>l\<in>set ls. \<forall>c\<in>set l. \<not> is_linebreak c"
          by simp_all
        with nocrlf False Cons show ?thesis by auto
      qed
    qed
  qed
qed

lemma first_branch_no_break:
  "first_branch sh cmds = PStr b \<Longrightarrow> \<forall>c\<in>set b. \<not> is_linebreak c"
proof (induction cmds)
  case Nil
  then show ?case by simp
next
  case (Cons cmd cmds)
  obtain rc out where p: "sh cmd = (rc, out)" by (cases "sh cmd")
  show ?case
  proof (cases "rc = 0 \<and> splitlines out \<noteq> []")
    case True
    then obtain l ls where ls: "splitlines out = l # ls" by (cases "splitlines out") auto
    with True p Cons.prems have "b = l" by simp
    with ls have "b \<in> set (splitlines out)" by simp
    then show ?thesis using splitlines_no_break_all by blast
  next
    case False
    then have "first_branch sh (cmd # cmds) = first_branch sh cmds"
      using p by (cases "splitlines out") auto
    with Cons show ?thesis by simp
  qed
qed

lemma text_lines_plain_Cons:
  assumes "c \<noteq> CHR 0x0D" "c \<noteq> CHR 0x0A" "t \<noteq> []"
  shows "text_lines (c # t) = (case text_lines t of [] \<Rightarrow> [[c]] | l # ls \<Rightarrow> (c # l) # ls)"
proof -
  from assms(3) obtain d cs where t: "t = d # cs" by (cases t) auto
  show ?thesis unfolding t using assms(1,2) by simp
qed

lemma text_lines_newline: "text_lines (CHR 0x0A # t) = [CHR 0x0A] # text_lines t"
  by (cases t) simp_all

lemma text_lines_line:
  "CHR 0x0D \<notin> set l \<Longrightarrow> CHR 0x0A \<notin> set l \<Longrightarrow>
   text_lines (l @ CHR 0x0A # t) = (l @ [CHR 0x0A]) # text_lines t"
proof (induction l)
  case Nil
  then show ?case by (simp add: text_lines_newline)
next
  case (Cons a l)
  then have a: "a \<noteq> CHR 0x0D" "a \<noteq> CHR 0x0A" by auto
  have "text_lines ((a # l) @ CHR 0x0A # t) = text_lines (a # (l @ CHR 0x0A # t))" by simp
  also have "\<dots> = (case text_lines (l @ CHR 0x0A # t) of [] \<Rightarrow> [[a]] | x # xs \<Rightarrow> (a # x) # xs)"
    by (rule text_lines_plain_Cons [OF a]) simp
  also have "\<dots> = ((a # l) @ [CHR 0x0A]) # text_lines t"
    using Cons by simp
  finally show ?case .
qed

lemma py_split_plain: "sep \<notin> set s \<Longrightarrow> py_split sep s = [s]"
  by (induction s) auto

lemma py_split_at: "sep \<notin> set a \<Longrightarrow> py_split sep (a @ sep # b) = a # py_split sep b"
  by (induction a) auto

lemma py_strip_line:
  assumes "x \<noteq> []" "\<not> P (hd x)" "\<not> P (last x)"
  shows "py_strip P (x @ [c]) = (if P c then x else x @ [c])"
proof -
  from assms(1,2) have 1: "dropWhile P (x @ [c]) = x @ [c]" by (cases x) auto
  from assms(1) have 2: "rev x = last x # rev (butlast x)"
    by (metis append_butlast_last_id rev.simps(2) rev_rev_ident rev_swap)
  have 3: "dropWhile P (rev x) = rev x" unfolding 2 using assms(3) by simp
  show ?thesis unfolding py_strip_def 1 using 3 by simp
qed

lemma digit_chars: "n < 10 \<Longrightarrow> ''0123456789'' ! n \<in> set ''0123456789''"
  by (rule nth_mem) simp

lemma dec_nat_chars: "set (dec_nat n) \<subseteq> set ''0123456789''"
proof (induction n rule: dec_nat.induct)
  case (1 n)
  show ?case
  proof (cases "n < 10")
    case True
    have "dec_nat n = [''0123456789'' ! n]" using True by (subst dec_nat.simps) simp
    then show ?thesis using digit_chars [OF True] by simp
  next
    case False
    have "n mod 10 < 10" by simp
    then have d: "''0123456789'' ! (n mod 10) \<in> set ''0123456789''" by (rule digit_chars)
    have e: "dec_nat n = dec_nat (n div 10) @ [''0123456789'' ! (n mod 10)]" using False by (subst dec_nat.simps) simp
    from 1 [OF False] d show ?thesis unfolding e by simp
  qed
qed

lemma dict_set_fresh: "k \<notin> fst ` set d \<Longrightarrow> dict_set k v d = d @ [(k, v)]"
  by (induction d) auto

lemma load_line_vcs_line:
  assumes k: "k \<noteq> []" "hd k \<noteq> CHR ''#''"
      "CHR ''='' \<notin> set k" "CHR 0x0A \<notin> set k" "CHR 0x0D \<notin> set k"
    and s: "CHR ''='' \<notin> set (py_str v)" "CHR 0x0A \<notin> set (py_str v)" "CHR 0x0D \<notin> set (py_str v)"
  shows "load_line info (vcs_line (k, v)) = dict_set k (PStr (py_str v)) info"
proof -
  let ?s = "py_str v"
  let ?x = "k @ CHR ''='' # ?s"
  let ?P = "\<lambda>c. c = CHR 0x0A \<or> c = CHR 0x0D"
  have line: "vcs_line (k, v) = ?x @ [CHR 0x0A]" by (simp add: vcs_line_def)
  have nohash: "\<not> prefix ''#'' (vcs_line (k, v))"
    using k(1,2) unfolding line by (cases k) auto
  have "hd ?x = hd k" using k(1) by (cases k) auto
  then have hdx: "\<not> ?P (hd ?x)" using k(1,4,5) by (cases k) auto
  have "last ?x \<in> set (CHR ''='' # ?s)" by (metis last_appendR last_in_set list.distinct(1))
  then have lastx: "\<not> ?P (last ?x)" using s(2,3) by auto
  have strip: "py_strip ?P (vcs_line (k, v)) = ?x"
    unfolding line using py_strip_line [of ?x ?P "CHR 0x0A"] hdx lastx by simp
  have split: "py_split CHR ''='' ?x = [k, ?s]"
    using py_split_at [OF k(3), of ?s] py_split_plain [OF s(1)] by simp
  show ?thesis
    unfolding load_line_def using nohash by (simp add: strip split Let_def)
qed

lemma load_lines:
  assumes "\<forall>kv\<in>set info. fst kv \<noteq> [] \<and> hd (fst kv) \<noteq> CHR ''#'' \<and>
             CHR ''='' \<notin> set (fst kv) \<and> CHR 0x0A \<notin> set (fst kv) \<and> CHR 0x0D \<notin> set (fst kv) \<and>
             CHR ''='' \<notin> set (py_str (snd kv)) \<and> CHR 0x0A \<notin> set (py_str (snd kv)) \<and>
             CHR 0x0D \<notin> set (py_str (snd kv))"
    and "distinct (map fst (acc @ info))"
  shows "foldl load_line acc (map vcs_line info) = acc @ stringified info"
  using assms
proof (induction info arbitrary: acc)
  case Nil
  then show ?case by (simp add: stringified_def)
next
  case (Cons kv info)
  obtain k v where kv: "kv = (k, v)" by (cases kv)
  have step: "load_line acc (vcs_line (k, v)) = dict_set k (PStr (py_str v)) acc"
    using Cons.prems(1) unfolding kv by (intro load_line_vcs_line) auto
  have fresh: "k \<notin> fst ` set acc" using Cons.prems(2) unfolding kv by auto
  have acc': "load_line acc (vcs_line (k, v)) = acc @ [(k, PStr (py_str v))]"
    unfolding step by (rule dict_set_fresh [OF fresh])
  have d: "distinct (map fst ((acc @ [(k, PStr (py_str v))]) @ info))"
    using Cons.prems(2) unfolding kv by auto
  have "foldl load_line (acc @ [(k, PStr (py_str v))]) (map vcs_line info)
        = (acc @ [(k, PStr (py_str v))]) @ stringified info"
    using Cons.prems(1) d by (intro Cons.IH) auto
  then show ?case unfolding kv by (simp add: acc' stringified_def)
qed

lemma text_lines_vcs:
  assumes "\<forall>kv\<in>set info. CHR 0x0A \<notin> set (fst kv) \<and> CHR 0x0D \<notin> set (fst kv) \<and>
             CHR 0x0A \<notin> set (py_str (snd kv)) \<and> CHR 0x0D \<notin> set (py_str (snd kv))"
  shows "text_lines (concat (map vcs_line info)) = map vcs_line info"
  using assms
proof (induction info)
  case Nil
  then show ?case by simp
next
  case (Cons kv info)
  let ?l = "fst kv @ ''='' @ py_str (snd kv)"
  have l: "CHR 0x0D \<notin> set ?l" "CHR 0x0A \<notin> set ?l" using Cons.prems by auto
  have "concat (map vcs_line (kv # info)) = ?l @ CHR 0x0A # concat (map vcs_line info)"
    by (simp add: vcs_line_def)
  then have "text_lines (concat (map vcs_line (kv # info)))
             = (?l @ [CHR 0x0A]) # text_lines (concat (map vcs_line info))"
    using text_lines_line [OF l] by simp
  also have "text_lines (concat (map vcs_line info)) = map vcs_line info"
    using Cons by simp
  also have "(?l @ [CHR 0x0A]) # map vcs_line info = map vcs_line (kv # info)"
    by (simp add: vcs_line_def)
  finally show ?case .
qed

lemma follow_update:
  "follow n fs p = Some q \<Longrightarrow> follow n (fs(q \<mapsto> File c)) p = Some q"
proof (induction n arbitrary: p)
  case 0
  then show ?case by simp
next
  case (Suc n)
  show ?case
  proof (cases "p = q")
    case True
    then show ?thesis by simp
  next
    case False
    show ?thesis
    proof (cases "fs p")
      case None
      with Suc.prems False show ?thesis by simp
    next
      case (Some nd)
      show ?thesis
      proof (cases nd)
        case (Link t)
        with Some Suc.prems have "follow n fs t = Some q" by simp
        then have ih: "follow n (fs(q \<mapsto> File c)) t = Some q" by (rule Suc.IH)
        have "(fs(q \<mapsto> File c)) p = Some (Link t)" using Link Some False by simp
        then show ?thesis using ih by (simp del: fun_upd_apply)
      qed (use Some Suc.prems False in auto)
    qed
  qed
qed

lemma write_then_read:
  assumes "write_file fs p c = Inr fs'"
  shows "read_file fs' p = Inr c \<and> path_exists fs' p"
proof -
  from assms obtain q where q: "realpath fs p = Some q" and fs': "fs' = fs(q \<mapsto> File c)"
    by (auto simp: write_file_def split: option.splits node.splits)
  have "realpath fs' p = Some q"
    using q follow_update unfolding realpath_def fs' by simp
  then show ?thesis by (simp add: read_file_def path_exists_def fs')
qed

lemma dec_int_chars:
  assumes "c \<in> set (dec_int i)"
  shows "c = CHR ''-'' \<or> c \<in> set ''0123456789''"
proof (cases "i < 0")
  case True
  then have "dec_int i = CHR ''-'' # dec_nat (nat (- i))" by (simp add: dec_int_def)
  with assms have "c = CHR ''-'' \<or> c \<in> set (dec_nat (nat (- i)))" by simp
  then show ?thesis using dec_nat_chars by blast
next
  case False
  then have "dec_int i = dec_nat (nat i)" by (simp add: dec_int_def)
  with assms have "c \<in> set (dec_nat (nat i))" by simp
  then show ?thesis using dec_nat_chars by blast
qed

lemma dec_int_plain:
  "CHR ''='' \<notin> set (dec_int i)" "CHR 0x0A \<notin> set (dec_int i)" "CHR 0x0D \<notin> set (dec_int i)"
proof -
  show "CHR ''='' \<notin> set (dec_int i)"
  proof
    assume "CHR ''='' \<in> set (dec_int i)"
    then have "CHR ''='' = CHR ''-'' \<or> CHR ''='' \<in> set ''0123456789''" by (rule dec_int_chars)
    then show False by simp
  qed
  show "CHR 0x0A \<notin> set (dec_int i)"
  proof
    assume "CHR 0x0A \<in> set (dec_int i)"
    then have "CHR 0x0A = CHR ''-'' \<or> CHR 0x0A \<in> set ''0123456789''" by (rule dec_int_chars)
    then show False by simp
  qed
  show "CHR 0x0D \<notin> set (dec_int i)"
  proof
    assume "CHR 0x0D \<in> set (dec_int i)"
    then have "CHR 0x0D = CHR ''-'' \<or> CHR 0x0D \<in> set ''0123456789''" by (rule dec_int_chars)
    then show False by simp
  qed
qed

lemma first_branch_not_int: "first_branch sh cmds \<noteq> PInt n"
proof (induction cmds)
  case Nil
  then show ?case by simp
next
  case (Cons cmd cmds)
  obtain rc out where p: "sh cmd = (rc, out)" by (cases "sh cmd")
  show ?case using Cons p by (cases "splitlines out") auto
qed

lemma info_shape:
  "(let info0 = (if \<not> tb then [] else dict_set ''BRANCH'' b []);
        info1 = (if tr then (case io of None \<Rightarrow> info0
                             | Some n \<Rightarrow> dict_set ''REVISION'' (PInt n) info0)
                 else info0)
    in if ch \<noteq> 0 then dict_set ''LOCAL_MODIFICATIONS'' (PInt ch) info1 else info1) =
   (if tb then [(''BRANCH'', b)] else []) @
   (if tr then (case io of None \<Rightarrow> [] | Some n \<Rightarrow> [(''REVISION'', PInt n)]) else []) @
   (if ch \<noteq> 0 then [(''LOCAL_MODIFICATIONS'', PInt ch)] else [])"
  by (cases tb; cases tr; cases io; cases "ch = 0"; simp)

lemma vcs_branch_plain:
  assumes "truthy (vcs_branch sh)"
  shows "CHR 0x0A \<notin> set (py_str (vcs_branch sh)) \<and> CHR 0x0D \<notin> set (py_str (vcs_branch sh))"
proof -
  have "\<And>n. vcs_branch sh \<noteq> PInt n"
    unfolding vcs_branch_def by (rule first_branch_not_int)
  with assms obtain b where b: "vcs_branch sh = PStr b"
    by (cases "vcs_branch sh") auto
  then have "\<forall>c\<in>set b. \<not> is_linebreak c"
    unfolding vcs_branch_def by (rule first_branch_no_break)
  then have "CHR 0x0A \<notin> set b \<and> CHR 0x0D \<notin> set b"
    by (auto simp: is_linebreak_def)
  with b show ?thesis by simp
qed

lemma get_vcs_info_unfold:
  assumes "get_vcs_info sh = Inr info"
  obtains r where "vcs_revision sh = Inr r"
    and "info =
      (if truthy (vcs_branch sh) then [(''BRANCH'', vcs_branch sh)] else []) @
      (if truthy r then (case int_of r of None \<Rightarrow> [] | Some n \<Rightarrow> [(''REVISION'', PInt n)]) else []) @
      (if vcs_changes sh \<noteq> 0 then [(''LOCAL_MODIFICATIONS'', PInt (vcs_changes sh))] else [])"
proof (cases "vcs_revision sh")
  case (Inl e)
  with assms show ?thesis by (simp add: get_vcs_info_def Let_def)
next
  case (Inr r)
  with assms have "info =
    (let info0 = (if \<not> truthy (vcs_branch sh) then [] else dict_set ''BRANCH'' (vcs_branch sh) []);
         info1 = (if truthy r then (case int_of r of None \<Rightarrow> info0
                             | Some n \<Rightarrow> dict_set ''REVISION'' (PInt n) info0)
                 else info0)
     in if vcs_changes sh \<noteq> 0 then dict_set ''LOCAL_MODIFICATIONS'' (PInt (vcs_changes sh)) info1
        else info1)"
    by (simp add: get_vcs_info_def Let_def)
  then have "info =
      (if truthy (vcs_branch sh) then [(''BRANCH'', vcs_branch sh)] else []) @
      (if truthy r then (case int_of r of None \<Rightarrow> [] | Some n \<Rightarrow> [(''REVISION'', PInt n)]) else []) @
      (if vcs_changes sh \<noteq> 0 then [(''LOCAL_MODIFICATIONS'', PInt (vcs_changes sh))] else [])"
    unfolding info_shape .
  with Inr that show ?thesis by blast
qed

lemma get_vcs_info_entries:
  assumes "get_vcs_info sh = Inr info" and "kv \<in> set info"
  shows "(fst kv = ''BRANCH'' \<and> snd kv = vcs_branch sh \<and> truthy (vcs_branch sh)) \<or>
         (fst kv = ''REVISION'' \<and> (\<exists>n. snd kv = PInt n)) \<or>
         (fst kv = ''LOCAL_MODIFICATIONS'' \<and> (\<exists>n. snd kv = PInt n))"
proof -
  from assms(1) obtain r where "info =
      (if truthy (vcs_branch sh) then [(''BRANCH'', vcs_branch sh)] else []) @
      (if truthy r then (case int_of r of None \<Rightarrow> [] | Some n \<Rightarrow> [(''REVISION'', PInt n)]) else []) @
      (if vcs_changes sh \<noteq> 0 then [(''LOCAL_MODIFICATIONS'', PInt (vcs_changes sh))] else [])"
    by (rule get_vcs_info_unfold)
  with assms(2) show ?thesis
    by (cases "truthy (vcs_branch sh)"; cases "truthy r"; cases "int_of r";
        cases "vcs_changes sh = 0"; auto)
qed

lemma get_vcs_info_distinct:
  assumes "get_vcs_info sh = Inr info"
  shows "distinct (map fst info)"
proof -
  from assms(1) obtain r where "info =
      (if truthy (vcs_branch sh) then [(''BRANCH'', vcs_branch sh)] else []) @
      (if truthy r then (case int_of r of None \<Rightarrow> [] | Some n \<Rightarrow> [(''REVISION'', PInt n)]) else []) @
      (if vcs_changes sh \<noteq> 0 then [(''LOCAL_MODIFICATIONS'', PInt (vcs_changes sh))] else [])"
    by (rule get_vcs_info_unfold)
  then show ?thesis
    by (cases "truthy (vcs_branch sh)"; cases "truthy r"; cases "int_of r";
        cases "vcs_changes sh = 0"; simp)
qed

lemma get_vcs_info_plain:
  assumes "get_vcs_info sh = Inr info" and "CHR ''='' \<notin> set (py_str (vcs_branch sh))"
    and "kv \<in> set info"
  shows "fst kv \<noteq> [] \<and> hd (fst kv) \<noteq> CHR ''#'' \<and>
         CHR ''='' \<notin> set (fst kv) \<and> CHR 0x0A \<notin> set (fst kv) \<and> CHR 0x0D \<notin> set (fst kv) \<and>
         CHR ''='' \<notin> set (py_str (snd kv)) \<and> CHR 0x0A \<notin> set (py_str (snd kv)) \<and>
         CHR 0x0D \<notin> set (py_str (snd kv))"
proof -
  consider (b) "fst kv = ''BRANCH''" "snd kv = vcs_branch sh" "truthy (vcs_branch sh)"
    | (r) n where "fst kv = ''REVISION''" "snd kv = PInt n"
    | (c) n where "fst kv = ''LOCAL_MODIFICATIONS''" "snd kv = PInt n"
    using get_vcs_info_entries [OF assms(1,3)] by blast
  then show ?thesis
  proof cases
    case b
    then show ?thesis using assms(2) vcs_branch_plain [OF b(3)] by simp
  next
    case r
    then show ?thesis using dec_int_plain [of n] by simp
  next
    case c
    then show ?thesis using dec_int_plain [of n] by simp
  qed
qed

lemma dict_get_set: "dict_get (dict_set k v d) k' = (if k' = k then Some v else dict_get d k')"
  by (induction d) (auto simp: dict_get_def)



lemma realpath_missing: "fs p = None \<Longrightarrow> realpath fs p = Some p"
  unfolding realpath_def by (simp add: numeral_eq_Suc)

lemma realpath_file: "fs p = Some (File c) \<Longrightarrow> realpath fs p = Some p"
  unfolding realpath_def by (simp add: numeral_eq_Suc)

lemma realpath_dir: "fs p = Some Dir \<Longrightarrow> realpath fs p = Some p"
  unfolding realpath_def by (simp add: numeral_eq_Suc)

lemma parent_error_dir:
  "dirname p = [] \<or> fs (dirname p) = Some Dir \<Longrightarrow> parent_error fs p = None"
  by (auto simp: parent_error_def Let_def realpath_dir)

section \<open>The version-control metadata: properties\<close>

lemma get_vcs_info_feature:
  "get_vcs_info sh_feature =
     Inr [(''BRANCH'', PStr ''fix''), (''REVISION'', PInt 85), (''LOCAL_MODIFICATIONS'', PInt 1)]"
  by code_simp

lemma record_vcs_info_feature:
  "record_vcs_info sh_feature Map.empty =
     Inr [vcs_path \<mapsto> File ''BRANCH=fix\<newline>REVISION=85\<newline>LOCAL_MODIFICATIONS=1\<newline>'']"
proof -
  have "dec_int 85 = ''85''" "dec_int 1 = ''1''" by code_simp+
  then show ?thesis
    by (simp add: record_vcs_info_def get_vcs_info_feature write_file_def realpath_missing
        vcs_line_def)
qed

lemma load_vcs_info_feature:
  "load_vcs_info [vcs_path \<mapsto> File ''BRANCH=fix\<newline>REVISION=85\<newline>LOCAL_MODIFICATIONS=1\<newline>''] =
     Inr [(''BRANCH'', PStr ''fix''), (''REVISION'', PStr ''85''),
          (''LOCAL_MODIFICATIONS'', PStr ''1'')]"
  by (simp add: load_vcs_info_def path_exists_def read_file_def realpath_file load_line_def
      py_strip_def Let_def)

text \<open>
  C5, as the code has it: outside a checkout \<^verbatim>\<open>git describe\<close> fails, \<^verbatim>\<open>get_output_line\<close>
  returns \<open>None\<close>, and the call of \<^verbatim>\<open>.split("-")\<close> on it raises AttributeError: the
  function does not return a mapping.
\<close>

theorem get_vcs_info_no_checkout_raises:
  "get_vcs_info sh_no_checkout = Inl AttributeError"
  by (simp add: get_vcs_info_def vcs_revision_def get_output_line_def sh_no_checkout_def)




text \<open>
  C3, the claim as stated fails: the recorded mapping holds the integer 85, the file
  holds the text \<^verbatim>\<open>REVISION=85\<close>, and the loaded mapping holds the string \<^verbatim>\<open>85\<close>, which
  is not equal to the integer.
\<close>

theorem record_then_load_not_equal:
  "get_vcs_info sh_feature =
     Inr [(''BRANCH'', PStr ''fix''), (''REVISION'', PInt 85), (''LOCAL_MODIFICATIONS'', PInt 1)] \<and>
   record_vcs_info sh_feature Map.empty =
     Inr [vcs_path \<mapsto> File ''BRANCH=fix\<newline>REVISION=85\<newline>LOCAL_MODIFICATIONS=1\<newline>''] \<and>
   load_vcs_info [vcs_path \<mapsto> File ''BRANCH=fix\<newline>REVISION=85\<newline>LOCAL_MODIFICATIONS=1\<newline>''] =
     Inr [(''BRANCH'', PStr ''fix''), (''REVISION'', PStr ''85''),
          (''LOCAL_MODIFICATIONS'', PStr ''1'')] \<and>
   \<not> dict_eq
       [(''BRANCH'', PStr ''fix''), (''REVISION'', PStr ''85''), (''LOCAL_MODIFICATIONS'', PStr ''1'')]
       [(''BRANCH'', PStr ''fix''), (''REVISION'', PInt 85), (''LOCAL_MODIFICATIONS'', PInt 1)]"
proof -
  have "\<not> dict_eq
       [(''BRANCH'', PStr ''fix''), (''REVISION'', PStr ''85''), (''LOCAL_MODIFICATIONS'', PStr ''1'')]
       [(''BRANCH'', PStr ''fix''), (''REVISION'', PInt 85), (''LOCAL_MODIFICATIONS'', PInt 1)]"
  proof
    assume "dict_eq
       [(''BRANCH'', PStr ''fix''), (''REVISION'', PStr ''85''), (''LOCAL_MODIFICATIONS'', PStr ''1'')]
       [(''BRANCH'', PStr ''fix''), (''REVISION'', PInt 85), (''LOCAL_MODIFICATIONS'', PInt 1)]"
    then have "map_of
       [(''BRANCH'', PStr ''fix''), (''REVISION'', PStr ''85''), (''LOCAL_MODIFICATIONS'', PStr ''1'')]
       ''REVISION'' = map_of
       [(''BRANCH'', PStr ''fix''), (''REVISION'', PInt 85), (''LOCAL_MODIFICATIONS'', PInt 1)]
       ''REVISION''"
      unfolding dict_eq_def by (rule fun_cong)
    then show False by simp
  qed
  then show ?thesis
    using get_vcs_info_feature record_vcs_info_feature load_vcs_info_feature by simp
qed

text \<open>
  C3, amended: when \<^verbatim>\<open>get_vcs_info\<close> returns a mapping whose branch name has no \<^verbatim>\<open>=\<close>
  in it, and the mapping is not empty or no \<^verbatim>\<open>./vcs-info\<close> existed before, then
  \<^verbatim>\<open>load_vcs_info\<close> after \<^verbatim>\<open>record_vcs_info\<close> returns the same keys in the same order,
  each with the text of the recorded value: an integer comes back as its decimal string.
\<close>

theorem record_then_load:
  assumes info: "get_vcs_info sh = Inr info"
    and rec: "record_vcs_info sh fs = Inr fs'"
    and branch: "CHR ''='' \<notin> set (py_str (vcs_branch sh))"
    and fresh: "info \<noteq> [] \<or> \<not> path_exists fs vcs_path"
  shows "load_vcs_info fs' = Inr (stringified info)"
proof (cases "info = []")
  case True
  with info rec have "fs' = fs" by (simp add: record_vcs_info_def)
  with True fresh show ?thesis by (simp add: load_vcs_info_def stringified_def)
next
  case False
  with info rec have w: "write_file fs vcs_path (concat (map vcs_line info)) = Inr fs'"
    by (simp add: record_vcs_info_def)
  have plain: "\<forall>kv\<in>set info. fst kv \<noteq> [] \<and> hd (fst kv) \<noteq> CHR ''#'' \<and>
         CHR ''='' \<notin> set (fst kv) \<and> CHR 0x0A \<notin> set (fst kv) \<and> CHR 0x0D \<notin> set (fst kv) \<and>
         CHR ''='' \<notin> set (py_str (snd kv)) \<and> CHR 0x0A \<notin> set (py_str (snd kv)) \<and>
         CHR 0x0D \<notin> set (py_str (snd kv))"
    using get_vcs_info_plain [OF info branch] by blast
  have lines: "text_lines (concat (map vcs_line info)) = map vcs_line info"
    by (rule text_lines_vcs) (use plain in blast)
  have "foldl load_line [] (map vcs_line info) = [] @ stringified info"
    by (rule load_lines) (use plain get_vcs_info_distinct [OF info] in simp_all)
  then show ?thesis
    using write_then_read [OF w] by (simp add: load_vcs_info_def lines)
qed

theorem record_then_load_witness:
  "get_vcs_info sh_feature =
     Inr [(''BRANCH'', PStr ''fix''), (''REVISION'', PInt 85), (''LOCAL_MODIFICATIONS'', PInt 1)] \<and>
   record_vcs_info sh_feature Map.empty =
     Inr [vcs_path \<mapsto> File ''BRANCH=fix\<newline>REVISION=85\<newline>LOCAL_MODIFICATIONS=1\<newline>''] \<and>
   CHR ''='' \<notin> set (py_str (vcs_branch sh_feature)) \<and>
   load_vcs_info [vcs_path \<mapsto> File ''BRANCH=fix\<newline>REVISION=85\<newline>LOCAL_MODIFICATIONS=1\<newline>''] =
     Inr (stringified
       [(''BRANCH'', PStr ''fix''), (''REVISION'', PInt 85), (''LOCAL_MODIFICATIONS'', PInt 1)])"
proof -
  have b: "vcs_branch sh_feature = PStr ''fix''" by code_simp
  then have p: "CHR ''='' \<notin> set (py_str (vcs_branch sh_feature))" by simp
  have f: "[(''BRANCH'', PStr ''fix''), (''REVISION'', PInt 85), (''LOCAL_MODIFICATIONS'', PInt 1)]
             \<noteq> [] \<or> \<not> path_exists Map.empty vcs_path"
    by simp
  from record_then_load [OF get_vcs_info_feature record_vcs_info_feature p f]
  show ?thesis using get_vcs_info_feature record_vcs_info_feature p by simp
qed

section \<open>The symlink resolver: properties\<close>

text \<open>
  C6: a candidate whose first character is \<^verbatim>\<open>*\<close> is never expanded.  The test
  \<^verbatim>\<open>symlink_option.find("*")\<close> is the index of the first \<^verbatim>\<open>*\<close>, which is 0 for such a
  pattern, and 0 is falsy: the pattern is taken as a plain path name.  Here the pattern
  \<^verbatim>\<open>*.js\<close> matches the existing file \<^verbatim>\<open>jquery.js\<close>, and the resolver still answers
  \<open>False\<close> and creates nothing.
\<close>

theorem install_symlink_leading_star:
  "py_glob env_star (files st_star) ''*.js'' = [''jquery.js''] \<and>
   path_exists (files st_star) ''jquery.js'' \<and>
   install_symlink env_star [''*.js''] ''www/jquery.js'' st_star = Inr (False, st_star)"
  by (simp add: py_glob_def has_magic_def env_star_def st_star_def path_exists_def
      realpath_file realpath_missing py_find_def)

lemma path_exists_lexists:
  assumes "path_exists fs p"
  shows "path_lexists fs p"
proof (cases "fs p")
  case None
  then have "realpath fs p = Some p" by (rule realpath_missing)
  with assms None show ?thesis by (simp add: path_exists_def)
next
  case (Some nd)
  then show ?thesis by (simp add: path_lexists_def)
qed

lemma install_symlink_skip:
  assumes "\<not> has_magic a" "\<not> path_exists (files s) a"
  shows "install_symlink e (a # others) dst s = install_symlink e others dst s"
proof (cases "py_find a ''*'' = 0")
  case True
  with assms(2) show ?thesis by simp
next
  case False
  show ?thesis
  proof (cases "path_lexists (files s) a")
    case True
    with False assms show ?thesis by (simp add: py_glob_def)
  next
    case no: False
    with False assms show ?thesis by (simp add: py_glob_def)
  qed
qed

lemma install_symlink_take:
  assumes "\<not> has_magic a" "path_exists (files s) a" "dst_clear (files s) dst"
  shows "install_symlink e (a # others) dst s =
           Inr (True, s\<lparr>trace := trace s @ [Symlinked dst a],
                          files := (files s)(dst \<mapsto> Link a)\<rparr>)"
proof -
  have lex: "path_lexists (files s) a" using assms(2) by (rule path_exists_lexists)
  have resolved: "(if py_find a ''*'' \<noteq> 0
            then (case py_glob e (files s) a of [] \<Rightarrow> None | m # _ \<Rightarrow> Some m)
            else Some a) = Some a"
    using assms(1) lex by (simp add: py_glob_def)
  have par: "dirname dst = [] \<or> files s (dirname dst) = Some Dir"
    using assms(3) by (simp add: dst_clear_def)
  show ?thesis
  proof (cases "files s dst")
    case None
    then have "\<not> path_exists (files s) dst"
      by (simp add: path_exists_def realpath_missing)
    moreover have "symlink (files s) a dst = Inr ((files s)(dst \<mapsto> Link a))"
      using None parent_error_dir [of dst "files s", OF par] by (simp add: symlink_def)
    ultimately show ?thesis using assms(2) resolved by (simp add: Let_def)
  next
    case (Some nd)
    with assms(3) have ex: "path_exists (files s) dst" and nd: "nd \<noteq> Dir"
      by (cases nd; simp add: dst_clear_def)+
    from Some nd have u: "unlink (files s) dst = Inr ((files s)(dst := None))"
      by (cases nd) (simp_all add: unlink_def)
    from par Some nd
    have "dirname dst = [] \<or> ((files s)(dst := None)) (dirname dst) = Some Dir"
      by auto
    then have "parent_error ((files s)(dst := None)) dst = None"
      by (rule parent_error_dir [of dst "(files s)(dst := None)"])
    then have "symlink ((files s)(dst := None)) a dst =
        Inr (((files s)(dst := None))(dst \<mapsto> Link a))"
      by (simp add: symlink_def)
    with u ex assms(2) resolved show ?thesis by (simp add: Let_def)
  qed
qed

lemma install_symlink_unresolved:
  "install_symlink e opts dst s = Inr (False, s') \<Longrightarrow> s' = s"
proof (induction opts)
  case Nil
  then show ?case by simp
next
  case (Cons a opts)
  let ?r = "(if py_find a ''*'' \<noteq> 0
            then (case py_glob e (files s) a of [] \<Rightarrow> None | m # _ \<Rightarrow> Some m)
            else Some a)"
  show ?case
  proof (cases ?r)
    case None
    with Cons.prems have "install_symlink e opts dst s = Inr (False, s')" by simp
    then show ?thesis by (rule Cons.IH)
  next
    case (Some p)
    show ?thesis
    proof (cases "path_exists (files s) p")
      case True
      with Some Cons.prems show ?thesis
        by (simp add: Let_def split: sum.splits if_splits)
    next
      case False
      with Some Cons.prems have "install_symlink e opts dst s = Inr (False, s')" by simp
      then show ?thesis by (rule Cons.IH)
    qed
  qed
qed

text \<open>
  C7: the destination is cleared before the link is made, but it is tested with
  \<^verbatim>\<open>os.path.exists\<close>, which follows links.  A destination that is a link to a file that
  is gone is not removed, and \<^verbatim>\<open>os.symlink\<close> raises: only the second candidate exists,
  and the destination is not linked to it.  On the same files without the old link the
  call links the destination to the second candidate.
\<close>

theorem install_symlink_dangling_destination:
  "\<not> path_exists (files st_dangling) ''/usr/share/javascript/jquery/jquery.js'' \<and>
   path_exists (files st_dangling) ''/usr/share/javascript/jquery/latest/jquery.js'' \<and>
   install_symlink env_star
     [''/usr/share/javascript/jquery/jquery.js'', ''/usr/share/javascript/jquery/latest/jquery.js'']
     ''www/jquery.js'' st_dangling = Inl FileExistsError \<and>
   files st_latest = (files st_dangling)(''www/jquery.js'' := None) \<and>
   map_sum id (\<lambda>r. (fst r, files (snd r) ''www/jquery.js''))
     (install_symlink env_star
        [''/usr/share/javascript/jquery/jquery.js'',
         ''/usr/share/javascript/jquery/latest/jquery.js'']
        ''www/jquery.js'' st_latest) =
   Inr (True, Some (Link ''/usr/share/javascript/jquery/latest/jquery.js''))"
  by (simp add: st_dangling_def st_latest_def py_find_def py_glob_def has_magic_def
      path_exists_def path_lexists_def realpath_def numeral_eq_Suc symlink_def parent_error_def
      dirname_def fun_upd_twist)

text \<open>
  The order of the candidates: for two candidates \<open>A\<close> and \<open>B\<close> that are plain path
  names, and a destination that can be replaced: when only \<open>B\<close> exists the destination becomes a link to \<open>B\<close> and the result
  is \<open>True\<close>; when \<open>A\<close> exists the destination becomes a link to \<open>A\<close>, whether \<open>B\<close> exists
  or not; when neither exists the result is \<open>False\<close> and nothing has changed.  For any
  list of candidates, a result \<open>False\<close> comes with an unchanged state.
\<close>

theorem install_symlink_priority:
  assumes "\<not> has_magic A" and "\<not> has_magic B" and "dst_clear (files s) dst"
  shows "(\<not> path_exists (files s) A \<and> path_exists (files s) B \<longrightarrow>
            install_symlink e [A, B] dst s =
              Inr (True, s\<lparr>trace := trace s @ [Symlinked dst B],
                             files := (files s)(dst \<mapsto> Link B)\<rparr>)) \<and>
         (path_exists (files s) A \<longrightarrow>
            install_symlink e [A, B] dst s =
              Inr (True, s\<lparr>trace := trace s @ [Symlinked dst A],
                             files := (files s)(dst \<mapsto> Link A)\<rparr>)) \<and>
         (\<not> path_exists (files s) A \<and> \<not> path_exists (files s) B \<longrightarrow>
            install_symlink e [A, B] dst s = Inr (False, s)) \<and>
         (\<forall>opts s'. install_symlink e opts dst s = Inr (False, s') \<longrightarrow> s' = s)"
proof (intro conjI impI allI)
  assume "\<not> path_exists (files s) A \<and> path_exists (files s) B"
  then show "install_symlink e [A, B] dst s =
              Inr (True, s\<lparr>trace := trace s @ [Symlinked dst B],
                             files := (files s)(dst \<mapsto> Link B)\<rparr>)"
    using install_symlink_skip [OF assms(1), of s e "[B]" dst]
      install_symlink_take [OF assms(2) _ assms(3), of e "[]"]
    by simp
next
  assume "path_exists (files s) A"
  then show "install_symlink e [A, B] dst s =
              Inr (True, s\<lparr>trace := trace s @ [Symlinked dst A],
                             files := (files s)(dst \<mapsto> Link A)\<rparr>)"
    by (rule install_symlink_take [OF assms(1) _ assms(3)])
next
  assume "\<not> path_exists (files s) A \<and> \<not> path_exists (files s) B"
  then show "install_symlink e [A, B] dst s = Inr (False, s)"
    using install_symlink_skip [OF assms(1), of s e "[B]" dst]
      install_symlink_skip [OF assms(2), of s e "[]" dst]
    by simp
next
  fix opts s'
  assume "install_symlink e opts dst s = Inr (False, s')"
  then show "s' = s" by (rule install_symlink_unresolved)
qed

lemma jquery_plain:
  "\<not> has_magic ''/usr/share/javascript/jquery/jquery.js''"
  "\<not> has_magic ''/usr/share/javascript/jquery/latest/jquery.js''"
  by (simp_all add: has_magic_def)

theorem install_symlink_priority_witness:
  "install_symlink env_star
     [''/usr/share/javascript/jquery/jquery.js'', ''/usr/share/javascript/jquery/latest/jquery.js'']
     ''www/jquery.js'' st_latest =
     Inr (True, st_latest\<lparr>trace := [Symlinked ''www/jquery.js''
                                       ''/usr/share/javascript/jquery/latest/jquery.js''],
            files := (files st_latest)(''www/jquery.js'' \<mapsto>
                        Link ''/usr/share/javascript/jquery/latest/jquery.js'')\<rparr>) \<and>
   install_symlink env_star
     [''/usr/share/javascript/jquery/jquery.js'', ''/usr/share/javascript/jquery/latest/jquery.js'']
     ''www/jquery.js'' st_both =
     Inr (True, st_both\<lparr>trace := [Symlinked ''www/jquery.js''
                                     ''/usr/share/javascript/jquery/jquery.js''],
            files := (files st_both)(''www/jquery.js'' \<mapsto>
                        Link ''/usr/share/javascript/jquery/jquery.js'')\<rparr>) \<and>
   install_symlink env_star
     [''/usr/share/javascript/jquery/jquery.js'', ''/usr/share/javascript/jquery/latest/jquery.js'']
     ''www/jquery.js'' st_none = Inr (False, st_none)"
proof -
  have c: "dst_clear (files st_latest) ''www/jquery.js''"
    "dst_clear (files st_both) ''www/jquery.js''"
    "dst_clear (files st_none) ''www/jquery.js''"
    by (simp_all add: dst_clear_def st_latest_def st_both_def st_none_def dirname_def)
  have l: "\<not> path_exists (files st_latest) ''/usr/share/javascript/jquery/jquery.js''"
    "path_exists (files st_latest) ''/usr/share/javascript/jquery/latest/jquery.js''"
    by (simp_all add: st_latest_def path_exists_def realpath_missing realpath_file)
  have b: "path_exists (files st_both) ''/usr/share/javascript/jquery/jquery.js''"
    by (simp add: st_both_def path_exists_def realpath_file)
  have n: "\<not> path_exists (files st_none) ''/usr/share/javascript/jquery/jquery.js''"
    "\<not> path_exists (files st_none) ''/usr/share/javascript/jquery/latest/jquery.js''"
    by (simp_all add: st_none_def path_exists_def realpath_missing)
  have t: "trace st_latest = []" "trace st_both = []"
    by (simp_all add: st_latest_def st_both_def)
  from install_symlink_priority [OF jquery_plain c(1), of env_star]
    install_symlink_priority [OF jquery_plain c(2), of env_star]
    install_symlink_priority [OF jquery_plain c(3), of env_star]
    l b n t
  show ?thesis by simp
qed

section \<open>The source transformer: properties\<close>

lemma prefix_append_cases:
  "prefix xs (ys @ zs) \<Longrightarrow> prefix xs ys \<or> prefix ys xs"
  by (metis prefix_append prefixI)

lemma replace_scan_skip_lit:
  assumes "\<forall>t\<in>set (suffixes lit). t = [] \<or> (\<not> prefix old t \<and> \<not> prefix t old)"
    and "suffix t lit"
  shows "replace_scan old new (t @ post) = t @ replace_scan old new post"
  using assms(2)
proof (induction t)
  case Nil
  then show ?case by simp
next
  case (Cons c t)
  from Cons.prems have mem: "c # t \<in> set (suffixes lit)" by (simp add: in_set_suffixes)
  with assms(1) have np: "\<not> prefix old (c # t)" "\<not> prefix (c # t) old" by auto
  have "\<not> prefix old ((c # t) @ post)"
    using np prefix_append_cases by blast
  then have "replace_scan old new ((c # t) @ post) = c # replace_scan old new (t @ post)"
    by simp
  moreover have "suffix t lit" using Cons.prems by (rule suffix_ConsD)
  ultimately show ?case using Cons.IH by simp
qed

lemma replace_scan_frame:
  assumes "apart old lit" and "lit \<noteq> []"
  shows "replace_scan old new (pre @ lit @ post) =
           replace_scan old new pre @ lit @ replace_scan old new post"
proof (induction pre rule: length_induct)
  case (1 pre)
  have a1: "\<forall>t\<in>set (suffixes lit). t = [] \<or> (\<not> prefix old t \<and> \<not> prefix t old)"
    and a2: "\<forall>t\<in>set (suffixes old). t = [] \<or> (\<not> prefix lit t \<and> \<not> prefix t lit)"
    using assms(1) by (simp_all add: apart_def list_all_iff)
  show ?case
  proof (cases pre)
    case Nil
    then show ?thesis using replace_scan_skip_lit [OF a1, of lit] by simp
  next
    case (Cons c cs)
    show ?thesis
    proof (cases "old \<noteq> [] \<and> prefix old (pre @ lit @ post)")
      case True
      have inpre: "prefix old pre"
      proof (rule ccontr)
        assume n: "\<not> prefix old pre"
        from True have "prefix old pre \<or> prefix pre old"
          using prefix_append_cases by blast
        with n obtain t where old: "old = pre @ t" by (auto simp: prefix_def)
        with n have t: "t \<noteq> []" by auto
        from True old have "prefix t (lit @ post)" by simp
        then have "prefix t lit \<or> prefix lit t" using prefix_append_cases by blast
        moreover have "t \<in> set (suffixes old)" using old by (simp add: in_set_suffixes suffix_def)
        ultimately show False using a2 t by blast
      qed
      then obtain r where pre: "pre = old @ r" by (auto simp: prefix_def)
      from True Cons have len: "length r < length pre" unfolding pre by (cases old) auto
      have "drop (length old - 1) (cs @ lit @ post) = r @ lit @ post"
        using pre Cons True by (cases old) auto
      moreover have "drop (length old - 1) cs = r"
        using pre Cons True by (cases old) auto
      moreover have "prefix old (c # cs)" using inpre Cons by simp
      moreover have "prefix old (c # cs @ lit @ post)" using True Cons by simp
      ultimately show ?thesis
        using 1 len True unfolding Cons by simp
    next
      case False
      then have np: "\<not> (old \<noteq> [] \<and> prefix old pre)"
        by (meson prefix_order.trans prefix_append prefixI append_prefixD)
      have "length cs < length pre" using Cons by simp
      then have ih: "replace_scan old new (cs @ lit @ post) =
           replace_scan old new cs @ lit @ replace_scan old new post"
        using 1 by blast
      have "\<not> (old \<noteq> [] \<and> prefix old (c # (cs @ lit @ post)))"
        using False Cons by simp
      then have s1: "replace_scan old new (c # (cs @ lit @ post)) =
           c # replace_scan old new (cs @ lit @ post)"
        by (simp only: replace_scan.simps if_False)
      have "\<not> (old \<noteq> [] \<and> prefix old (c # cs))" using np Cons by simp
      then have s2: "replace_scan old new (c # cs) = c # replace_scan old new cs"
        by (simp only: replace_scan.simps if_False)
      show ?thesis unfolding Cons using s1 s2 ih by simp
    qed
  qed
qed

lemma splitlines_plain_Cons:
  assumes "\<not> is_linebreak c" "t \<noteq> []"
  shows "splitlines (c # t) = (case splitlines t of [] \<Rightarrow> [[c]] | l # ls \<Rightarrow> (c # l) # ls)"
proof -
  from assms(2) obtain d cs where t: "t = d # cs" by (cases t) auto
  from assms(1) have "c \<noteq> CHR 0x0D" by (auto simp: is_linebreak_def)
  then show ?thesis unfolding t using assms(1) by simp
qed

lemma splitlines_newline: "splitlines (CHR 0x0A # t) = [] # splitlines t"
  by (cases t) (simp_all add: is_linebreak_def)

lemma splitlines_line:
  "\<forall>c\<in>set l. \<not> is_linebreak c \<Longrightarrow> splitlines (l @ CHR 0x0A # t) = l # splitlines t"
proof (induction l)
  case Nil
  then show ?case by (simp add: splitlines_newline)
next
  case (Cons a l)
  then have a: "\<not> is_linebreak a" by simp
  have "splitlines ((a # l) @ CHR 0x0A # t) = splitlines (a # (l @ CHR 0x0A # t))" by simp
  also have "\<dots> = (case splitlines (l @ CHR 0x0A # t) of [] \<Rightarrow> [[a]] | x # xs \<Rightarrow> (a # x) # xs)"
    by (rule splitlines_plain_Cons [OF a]) simp
  also have "\<dots> = (a # l) # splitlines t" using Cons by simp
  finally show ?case .
qed

lemma splitlines_single:
  "l \<noteq> [] \<Longrightarrow> \<forall>c\<in>set l. \<not> is_linebreak c \<Longrightarrow> splitlines l = [l]"
proof (induction l)
  case Nil
  then show ?case by simp
next
  case (Cons a l)
  show ?case
  proof (cases "l = []")
    case True
    with Cons.prems show ?thesis by simp
  next
    case False
    with Cons have "splitlines l = [l]" by simp
    moreover have "\<not> is_linebreak a" using Cons.prems by simp
    ultimately show ?thesis using splitlines_plain_Cons [OF _ False, of a] by simp
  qed
qed

lemma splitlines_join:
  "\<forall>l\<in>set ls. \<forall>c\<in>set l. \<not> is_linebreak c \<Longrightarrow>
   splitlines (py_join [CHR 0x0A] ls) = drop_last_empty ls"
proof (induction ls)
  case Nil
  then show ?case by (simp add: drop_last_empty_def)
next
  case (Cons x ls)
  show ?case
  proof (cases ls)
    case Nil
    show ?thesis
    proof (cases "x = []")
      case True
      with Nil show ?thesis by (simp add: drop_last_empty_def)
    next
      case False
      then have "splitlines x = [x]" using Cons.prems by (intro splitlines_single) simp_all
      with False Nil show ?thesis by (simp add: drop_last_empty_def)
    qed
  next
    case (Cons y ys)
    have "splitlines (py_join [CHR 0x0A] (x # y # ys)) =
            splitlines (x @ CHR 0x0A # py_join [CHR 0x0A] (y # ys))"
      by simp
    also have "\<dots> = x # splitlines (py_join [CHR 0x0A] (y # ys))"
      using Cons.prems by (intro splitlines_line) simp
    also have "\<dots> = x # drop_last_empty (y # ys)"
      using Cons.IH Cons.prems unfolding Cons by simp
    also have "\<dots> = drop_last_empty (x # y # ys)" by (simp add: drop_last_empty_def)
    finally show ?thesis unfolding Cons .
  qed
qed

lemma match_atoms_suffix: "match_atoms p s = Some rest \<Longrightarrow> suffix rest s"
proof (induction p s rule: match_atoms.induct)
  case (1 s)
  then show ?case by simp
next
  case (2 atoms s)
  then have "suffix rest (dropWhile is_space s)" by simp
  then show ?case using suffix_dropWhile suffix_order.trans by blast
next
  case (3 atoms s)
  show ?case
  proof (cases s)
    case Nil
    with 3 show ?thesis by simp
  next
    case (Cons c cs)
    with 3 have sp: "is_space c" and m: "match_atoms atoms (dropWhile is_space cs) = Some rest"
      by (auto split: if_splits)
    from 3(1) [OF Cons sp m] have "suffix rest (dropWhile is_space cs)" .
    then have "suffix rest cs" using suffix_dropWhile suffix_order.trans by blast
    then show ?thesis unfolding Cons by (rule suffix_ConsI)
  qed
next
  case (4 l atoms s)
  then have "prefix l s" and "suffix rest (drop (length l) s)"
    by (auto split: if_splits)
  then show ?case using suffix_drop suffix_order.trans by blast
qed

lemma rule_cases:
  assumes "rule \<in> set downlevel_rules"
  obtains p where "fst rule = Spaces # Lit ''for'' # p" "snd rule = ''for(var ''"
  | "fst rule = [Spaces, Lit ''let'', Spaces1]" "snd rule = ''var ''"
  | "fst rule = [Spaces, Lit ''const'', Spaces1]" "snd rule = ''var ''"
  using assms unfolding downlevel_rules_def by auto

lemma re_sub_empty:
  assumes "rule \<in> set downlevel_rules"
  shows "re_sub (fst rule) (snd rule) l = [] \<longleftrightarrow> l = []"
proof
  assume "l = []"
  then show "re_sub (fst rule) (snd rule) l = []"
    using assms by (rule_tac rule_cases [OF assms]) (simp_all add: re_sub_def)
next
  assume e: "re_sub (fst rule) (snd rule) l = []"
  have "snd rule \<noteq> []" by (rule rule_cases [OF assms]) simp_all
  with e show "l = []" by (auto simp: re_sub_def split: option.splits)
qed

lemma re_sub_no_break:
  assumes "rule \<in> set downlevel_rules" and "\<forall>c\<in>set l. \<not> is_linebreak c"
  shows "\<forall>c\<in>set (re_sub (fst rule) (snd rule) l). \<not> is_linebreak c"
proof (cases "match_atoms (fst rule) l")
  case None
  with assms(2) show ?thesis by (simp add: re_sub_def)
next
  case (Some rest)
  then have "suffix rest l" by (rule match_atoms_suffix)
  then have "set rest \<subseteq> set l" by (rule set_mono_suffix)
  with assms(2) have r: "\<forall>c\<in>set rest. \<not> is_linebreak c" by blast
  have "\<forall>c\<in>set (snd rule). \<not> is_linebreak c"
    by (rule rule_cases [OF assms(1)]) (simp_all add: is_linebreak_def)
  with r Some show ?thesis by (auto simp: re_sub_def)
qed

lemma drop_last_empty_map:
  assumes "\<And>l. f l = [] \<longleftrightarrow> l = []"
  shows "drop_last_empty (map f ls) = map f (drop_last_empty ls)"
proof (cases "ls = []")
  case True
  then show ?thesis by (simp add: drop_last_empty_def)
next
  case False
  then have "last (map f ls) = f (last ls)" by (simp add: last_map)
  with False assms show ?thesis by (simp add: drop_last_empty_def map_butlast)
qed

lemma drop_last_empty_no_break:
  "\<forall>l\<in>set ls. \<forall>c\<in>set l. \<not> is_linebreak c \<Longrightarrow>
   \<forall>l\<in>set (drop_last_empty ls). \<forall>c\<in>set l. \<not> is_linebreak c"
  by (auto simp: drop_last_empty_def dest: in_set_butlastD)

text \<open>One pass on a text that is given by its lines.\<close>

lemma downlevel_pass_joined:
  assumes "\<forall>l\<in>set ls. \<forall>c\<in>set l. \<not> is_linebreak c"
  shows "downlevel_pass (py_join [CHR 0x0A] ls) rule =
           py_join [CHR 0x0A] (map (re_sub (fst rule) (snd rule)) (drop_last_empty ls))"
  unfolding downlevel_pass_def using splitlines_join [OF assms] by simp

lemma map_re_sub_no_break:
  assumes "rule \<in> set downlevel_rules" and "\<forall>l\<in>set ls. \<forall>c\<in>set l. \<not> is_linebreak c"
  shows "\<forall>l\<in>set (map (re_sub (fst rule) (snd rule)) ls). \<forall>c\<in>set l. \<not> is_linebreak c"
  using re_sub_no_break [OF assms(1)] assms(2) by auto

lemma downlevel_by_lines:
  "downlevel data =
     py_join [CHR 0x0A]
       (map downlevel_line (drop_last_empty (drop_last_empty (drop_last_empty (splitlines data)))))"
proof -
  define r1 :: "atom list \<times> string" where
    "r1 = ([Spaces, Lit ''for'', Spaces, Lit ''('', Spaces, Lit ''let'', Spaces1], ''for(var '')"
  define r2 :: "atom list \<times> string" where "r2 = ([Spaces, Lit ''let'', Spaces1], ''var '')"
  define r3 :: "atom list \<times> string" where
    "r3 = ([Spaces, Lit ''for'', Spaces, Lit ''('', Spaces, Lit ''const'', Spaces1], ''for(var '')"
  define r4 :: "atom list \<times> string" where "r4 = ([Spaces, Lit ''const'', Spaces1], ''var '')"
  define f1 where "f1 = re_sub (fst r1) (snd r1)"
  define f2 where "f2 = re_sub (fst r2) (snd r2)"
  define f3 where "f3 = re_sub (fst r3) (snd r3)"
  define f4 where "f4 = re_sub (fst r4) (snd r4)"
  have rules: "downlevel_rules = [r1, r2, r3, r4]"
    by (simp add: downlevel_rules_def r1_def r2_def r3_def r4_def)
  have mem: "r1 \<in> set downlevel_rules" "r2 \<in> set downlevel_rules"
    "r3 \<in> set downlevel_rules" "r4 \<in> set downlevel_rules"
    unfolding rules by simp_all
  have e: "\<And>l. f1 l = [] \<longleftrightarrow> l = []" "\<And>l. f2 l = [] \<longleftrightarrow> l = []"
    "\<And>l. f3 l = [] \<longleftrightarrow> l = []"
    unfolding f1_def f2_def f3_def using re_sub_empty mem by blast+
  define L0 where "L0 = splitlines data"
  define M1 where "M1 = map f1 L0"
  define M2 where "M2 = map f2 (drop_last_empty M1)"
  define M3 where "M3 = map f3 (drop_last_empty M2)"
  have n0: "\<forall>l\<in>set L0. \<forall>c\<in>set l. \<not> is_linebreak c"
    unfolding L0_def by (rule splitlines_no_break_all)
  have n1: "\<forall>l\<in>set M1. \<forall>c\<in>set l. \<not> is_linebreak c"
    unfolding M1_def f1_def by (rule map_re_sub_no_break [OF mem(1) n0])
  have n2: "\<forall>l\<in>set M2. \<forall>c\<in>set l. \<not> is_linebreak c"
    unfolding M2_def f2_def
    by (rule map_re_sub_no_break [OF mem(2) drop_last_empty_no_break [OF n1]])
  have n3: "\<forall>l\<in>set M3. \<forall>c\<in>set l. \<not> is_linebreak c"
    unfolding M3_def f3_def
    by (rule map_re_sub_no_break [OF mem(3) drop_last_empty_no_break [OF n2]])
  have d1: "downlevel_pass data r1 = py_join [CHR 0x0A] M1"
    by (simp add: downlevel_pass_def M1_def L0_def f1_def)
  have d2: "downlevel_pass (py_join [CHR 0x0A] M1) r2 = py_join [CHR 0x0A] M2"
    unfolding M2_def f2_def by (rule downlevel_pass_joined [OF n1])
  have d3: "downlevel_pass (py_join [CHR 0x0A] M2) r3 = py_join [CHR 0x0A] M3"
    unfolding M3_def f3_def by (rule downlevel_pass_joined [OF n2])
  have d4: "downlevel_pass (py_join [CHR 0x0A] M3) r4 =
              py_join [CHR 0x0A] (map f4 (drop_last_empty M3))"
    unfolding f4_def by (rule downlevel_pass_joined [OF n3])
  have "downlevel data = py_join [CHR 0x0A] (map f4 (drop_last_empty M3))"
    by (simp add: downlevel_def rules d1 d2 d3 d4)
  also have "drop_last_empty M3 =
      map f3 (map f2 (map f1 (drop_last_empty (drop_last_empty (drop_last_empty L0)))))"
    unfolding M3_def M2_def M1_def
    by (simp only: drop_last_empty_map [of f1, OF e(1)] drop_last_empty_map [of f2, OF e(2)]
        drop_last_empty_map [of f3, OF e(3)])
  also have "map f4 (map f3 (map f2 (map f1
                (drop_last_empty (drop_last_empty (drop_last_empty L0)))))) =
             map downlevel_line (drop_last_empty (drop_last_empty (drop_last_empty L0)))"
    by (simp add: downlevel_line_def rules f1_def f2_def f3_def f4_def)
  finally show ?thesis unfolding L0_def .
qed

lemma skip_spaces:
  assumes "list_all is_space ws" and "t = [] \<or> \<not> is_space (hd t)"
  shows "dropWhile is_space (ws @ t) = t"
proof -
  have "dropWhile is_space (ws @ t) = dropWhile is_space t"
    using assms(1) by (intro dropWhile_append2) (simp add: list_all_iff)
  also have "\<dots> = t" using assms(2) by (cases t) auto
  finally show ?thesis .
qed

lemma no_space_letters:
  "\<not> is_space CHR ''l''" "\<not> is_space CHR ''c''" "\<not> is_space CHR ''v''"
  by (simp_all add: is_space_def)

text \<open>What one pattern does, from the line after its indentation.\<close>

lemma for_rule_skip:
  "\<not> prefix ''for'' (dropWhile is_space line) \<Longrightarrow>
   re_sub (Spaces # Lit ''for'' # p) r line = line"
  by (simp add: re_sub_def)

lemma decl_rule_skip:
  "\<not> prefix kw (dropWhile is_space line) \<Longrightarrow>
   re_sub [Spaces, Lit kw, Spaces1] r line = line"
  by (simp add: re_sub_def)

lemma decl_rule_match:
  assumes "dropWhile is_space line = kw @ c # cs" and "is_space c"
  shows "re_sub [Spaces, Lit kw, Spaces1] r line = r @ dropWhile is_space cs"
  using assms by (simp add: re_sub_def)

text \<open>The declaration patterns on a line that starts with the keyword after its indentation.\<close>

lemma downlevel_line_let:
  assumes ws: "list_all is_space ws" and sp: "list_all is_space sp" "sp \<noteq> []"
    and rest: "rest = [] \<or> \<not> is_space (hd rest)"
  shows "downlevel_line (ws @ ''let'' @ sp @ rest) = ''var '' @ rest"
proof -
  define line where "line = ws @ ''let'' @ sp @ rest"
  define out where "out = ''var '' @ rest"
  from sp obtain c cs where c: "sp = c # cs" "is_space c" "list_all is_space cs"
    by (cases sp) auto
  have "dropWhile is_space line = ''let'' @ sp @ rest"
    unfolding line_def using skip_spaces [OF ws, of "''let'' @ sp @ rest"] no_space_letters
    by simp
  then have lead: "dropWhile is_space line = ''let'' @ c # (cs @ rest)" using c(1) by simp
  have tail: "dropWhile is_space (cs @ rest) = rest"
    by (rule skip_spaces [OF c(3) rest])
  have f1: "re_sub [Spaces, Lit ''for'', Spaces, Lit ''('', Spaces, Lit ''let'', Spaces1]
              ''for(var '' line = line"
    by (rule for_rule_skip) (simp add: lead)
  have f2: "re_sub [Spaces, Lit ''let'', Spaces1] ''var '' line = out"
    using decl_rule_match [OF lead c(2), of "''var ''"] tail by (simp add: out_def)
  have v: "dropWhile is_space out = out"
    unfolding out_def using no_space_letters by simp
  have f3: "re_sub [Spaces, Lit ''for'', Spaces, Lit ''('', Spaces, Lit ''const'', Spaces1]
              ''for(var '' out = out"
    by (rule for_rule_skip) (simp add: v, simp add: out_def)
  have f4: "re_sub [Spaces, Lit ''const'', Spaces1] ''var '' out = out"
    by (rule decl_rule_skip) (simp add: v, simp add: out_def)
  have "downlevel_line line = out"
    by (simp only: downlevel_line_def downlevel_rules_def foldl.simps fst_conv snd_conv f1 f2 f3 f4)
  then show ?thesis unfolding line_def out_def .
qed

lemma downlevel_line_const:
  assumes ws: "list_all is_space ws" and sp: "list_all is_space sp" "sp \<noteq> []"
    and rest: "rest = [] \<or> \<not> is_space (hd rest)"
  shows "downlevel_line (ws @ ''const'' @ sp @ rest) = ''var '' @ rest"
proof -
  define line where "line = ws @ ''const'' @ sp @ rest"
  define out where "out = ''var '' @ rest"
  from sp obtain c cs where c: "sp = c # cs" "is_space c" "list_all is_space cs"
    by (cases sp) auto
  have "dropWhile is_space line = ''const'' @ sp @ rest"
    unfolding line_def using skip_spaces [OF ws, of "''const'' @ sp @ rest"] no_space_letters
    by simp
  then have lead: "dropWhile is_space line = ''const'' @ c # (cs @ rest)" using c(1) by simp
  have tail: "dropWhile is_space (cs @ rest) = rest"
    by (rule skip_spaces [OF c(3) rest])
  have f1: "re_sub [Spaces, Lit ''for'', Spaces, Lit ''('', Spaces, Lit ''let'', Spaces1]
              ''for(var '' line = line"
    by (rule for_rule_skip) (simp add: lead)
  have f2: "re_sub [Spaces, Lit ''let'', Spaces1] ''var '' line = line"
    by (rule decl_rule_skip) (simp add: lead)
  have f3: "re_sub [Spaces, Lit ''for'', Spaces, Lit ''('', Spaces, Lit ''const'', Spaces1]
              ''for(var '' line = line"
    by (rule for_rule_skip) (simp add: lead)
  have f4: "re_sub [Spaces, Lit ''const'', Spaces1] ''var '' line = out"
    using decl_rule_match [OF lead c(2), of "''var ''"] tail by (simp add: out_def)
  have "downlevel_line line = out"
    by (simp only: downlevel_line_def downlevel_rules_def foldl.simps fst_conv snd_conv f1 f2 f3 f4)
  then show ?thesis unfolding line_def out_def .
qed

text \<open>A line whose first word starts with none of the three keywords is not changed.\<close>

lemma downlevel_line_unanchored:
  assumes "\<not> prefix ''let'' (dropWhile is_space line)"
    and "\<not> prefix ''const'' (dropWhile is_space line)"
    and "\<not> prefix ''for'' (dropWhile is_space line)"
  shows "downlevel_line line = line"
proof -
  have f1: "re_sub [Spaces, Lit ''for'', Spaces, Lit ''('', Spaces, Lit ''let'', Spaces1]
              ''for(var '' line = line"
    by (rule for_rule_skip [OF assms(3)])
  have f2: "re_sub [Spaces, Lit ''let'', Spaces1] ''var '' line = line"
    by (rule decl_rule_skip [OF assms(1)])
  have f3: "re_sub [Spaces, Lit ''for'', Spaces, Lit ''('', Spaces, Lit ''const'', Spaces1]
              ''for(var '' line = line"
    by (rule for_rule_skip [OF assms(3)])
  have f4: "re_sub [Spaces, Lit ''const'', Spaces1] ''var '' line = line"
    by (rule decl_rule_skip [OF assms(2)])
  show ?thesis
    by (simp only: downlevel_line_def downlevel_rules_def foldl.simps fst_conv snd_conv f1 f2 f3 f4)
qed

lemma downlevel_examples:
  "downlevel ''  let x = 1;'' = ''var x = 1;''"
  "downlevel ''foo(let, x)'' = ''foo(let, x)''"
  by (simp_all add: downlevel_def downlevel_rules_def downlevel_pass_def re_sub_def
      is_linebreak_def is_space_def)

lemma literals_apart:
  "apart local_modifications_literal revision_literal"
  "apart branch_literal revision_literal"
  "apart revision_literal local_modifications_literal"
  "apart branch_literal local_modifications_literal"
  "apart revision_literal branch_literal"
  "apart local_modifications_literal branch_literal"
  by (simp_all add: apart_def revision_literal_def local_modifications_literal_def
      branch_literal_def)

lemma literals_nonempty:
  "revision_literal \<noteq> []" "local_modifications_literal \<noteq> []" "branch_literal \<noteq> []"
  by (simp_all add: revision_literal_def local_modifications_literal_def branch_literal_def)

lemma py_replace_frame:
  assumes "apart old lit" and "lit \<noteq> []" and "old \<noteq> []"
  shows "py_replace (pre @ lit @ post) old new =
           py_replace pre old new @ lit @ py_replace post old new"
  using replace_scan_frame [OF assms(1,2)] assms(3) by (simp add: py_replace_def)

text \<open>One field of the stamping: replaced when the value is truthy.\<close>

lemma field_frame:
  assumes "apart old lit" and "lit \<noteq> []" and "old \<noteq> []"
  shows "(if t then py_replace (pre @ lit @ post) old new else pre @ lit @ post) =
         (if t then py_replace pre old new else pre) @ lit @
         (if t then py_replace post old new else post)"
  using py_replace_frame [OF assms] by simp

lemma info_get_absent: "dict_get info k = None \<Longrightarrow> info_get info k = PNone"
  by (simp add: info_get_def)

lemma stamp_frame_revision:
  assumes "dict_get info ''REVISION'' = None"
  shows "stamp info (pre @ revision_literal @ post) =
           stamp info pre @ revision_literal @ stamp info post"
proof -
  have r: "\<not> truthy (info_get info ''REVISION'')"
    using info_get_absent [OF assms] by simp
  show ?thesis
    unfolding stamp_def Let_def
    by (simp only: r if_False
        field_frame [OF literals_apart(1) literals_nonempty(1) literals_nonempty(2)]
        field_frame [OF literals_apart(2) literals_nonempty(1) literals_nonempty(3)])
qed

lemma stamp_frame_local_modifications:
  assumes "dict_get info ''LOCAL_MODIFICATIONS'' = None"
  shows "stamp info (pre @ local_modifications_literal @ post) =
           stamp info pre @ local_modifications_literal @ stamp info post"
proof -
  have r: "\<not> truthy (info_get info ''LOCAL_MODIFICATIONS'')"
    using info_get_absent [OF assms] by simp
  show ?thesis
    unfolding stamp_def Let_def
    by (simp only: r if_False
        field_frame [OF literals_apart(3) literals_nonempty(2) literals_nonempty(1)]
        field_frame [OF literals_apart(4) literals_nonempty(2) literals_nonempty(3)])
qed

lemma stamp_frame_branch:
  assumes "dict_get info ''BRANCH'' = None"
  shows "stamp info (pre @ branch_literal @ post) =
           stamp info pre @ branch_literal @ stamp info post"
proof -
  have r: "\<not> truthy (info_get info ''BRANCH'')"
    using info_get_absent [OF assms] by simp
  show ?thesis
    unfolding stamp_def Let_def
    by (simp only: r if_False
        field_frame [OF literals_apart(5) literals_nonempty(3) literals_nonempty(1)]
        field_frame [OF literals_apart(6) literals_nonempty(3) literals_nonempty(2)])
qed

lemma stamp_empty: "stamp [] data = data"
  by (simp add: stamp_def info_get_def dict_get_def)

lemma stamped_empty: "stamped bname [] data = data"
  by (simp add: stamped_def)

lemma sublist_ConsI: "sublist xs ys \<Longrightarrow> sublist xs (y # ys)"
  by (simp add: sublist_Cons_right)

lemma sublist_between: "sublist xs ys \<Longrightarrow> sublist xs (a @ ys @ b)"
proof -
  assume "sublist xs ys"
  then obtain ps ss where "ys = ps @ xs @ ss" by (auto simp: sublist_def)
  then have "a @ ys @ b = (a @ ps) @ xs @ (ss @ b)" by simp
  then show ?thesis unfolding sublist_def by blast
qed

text \<open>A string without a line break that occurs in a text occurs in one of its lines.\<close>

lemma splitlines_starts_with:
  assumes "lit \<noteq> []" and "\<forall>c\<in>set lit. \<not> is_linebreak c"
  shows "\<exists>l ls. splitlines (lit @ post) = (lit @ l) # ls"
  using assms
proof (induction lit)
  case Nil
  then show ?case by simp
next
  case (Cons c lit)
  then have c: "\<not> is_linebreak c" by simp
  show ?case
  proof (cases "lit = []")
    case True
    show ?thesis
    proof (cases post)
      case Nil
      with True c show ?thesis by simp
    next
      case (Cons d cs)
      then have "post \<noteq> []" by simp
      from splitlines_plain_Cons [OF c this] True show ?thesis
        by (cases "splitlines post") auto
    qed
  next
    case False
    with Cons obtain l ls where ih: "splitlines (lit @ post) = (lit @ l) # ls" by auto
    from False have "lit @ post \<noteq> []" by simp
    from splitlines_plain_Cons [OF c this] ih show ?thesis by simp
  qed
qed

lemma sublist_in_line:
  assumes "lit \<noteq> []" and "\<forall>c\<in>set lit. \<not> is_linebreak c"
  shows "\<exists>l\<in>set (splitlines (pre @ lit @ post)). sublist lit l"
proof (induction pre rule: length_induct)
  case (1 pre)
  show ?case
  proof (cases pre)
    case Nil
    from splitlines_starts_with [OF assms, of post] obtain l ls
      where "splitlines (lit @ post) = (lit @ l) # ls" by blast
    with Nil show ?thesis by (auto intro: sublist_appendI [of lit "[]", simplified])
  next
    case (Cons c pre')
    define t where "t = pre' @ lit @ post"
    have t: "t \<noteq> []" using assms(1) by (simp add: t_def)
    have ih: "\<exists>l\<in>set (splitlines t). sublist lit l"
      unfolding t_def using 1 Cons by simp
    show ?thesis
    proof (cases "is_linebreak c")
      case False
      from ih obtain l0 ls0 where s: "splitlines t = l0 # ls0"
        by (cases "splitlines t") auto
      from splitlines_plain_Cons [OF False t] s
      have e: "splitlines (c # t) = (c # l0) # ls0" by simp
      from ih s have "sublist lit l0 \<or> (\<exists>l\<in>set ls0. sublist lit l)" by auto
      then have "\<exists>l\<in>set ((c # l0) # ls0). sublist lit l"
        by (auto intro: sublist_ConsI)
      then show ?thesis unfolding Cons using e by (simp add: t_def)
    next
      case True
      show ?thesis
      proof (cases "c = CHR 0x0D \<and> hd t = CHR 0x0A")
        case crlf: True
        have "pre' \<noteq> []"
        proof
          assume "pre' = []"
          then have "hd t = hd lit" using assms(1) by (simp add: t_def)
          with crlf assms have "is_linebreak (hd lit)" "hd lit \<in> set lit"
            by (simp_all add: is_linebreak_def)
          with assms(2) show False by blast
        qed
        then obtain d pre'' where p: "pre' = d # pre''" by (cases pre') auto
        with crlf have d: "d = CHR 0x0A" by (simp add: t_def)
        have "length pre'' < length pre" using Cons p by simp
        then have "\<exists>l\<in>set (splitlines (pre'' @ lit @ post)). sublist lit l"
          using 1 by blast
        moreover have "splitlines (pre @ lit @ post) = [] # splitlines (pre'' @ lit @ post)"
          unfolding Cons p using crlf d by simp
        ultimately show ?thesis by simp
      next
        case False
        obtain d cs where dc: "t = d # cs" using t by (cases t) auto
        with False have "\<not> (c = CHR 0x0D \<and> d = CHR 0x0A)" by simp
        with True have "splitlines (c # d # cs) = [] # splitlines (d # cs)" by auto
        then have "splitlines (pre @ lit @ post) = [] # splitlines t"
          unfolding Cons using dc by (simp add: t_def)
        with ih show ?thesis by simp
      qed
    qed
  qed
qed

lemma in_drop_last_empty:
  assumes "l \<in> set ls" and "l \<noteq> []"
  shows "l \<in> set (drop_last_empty ls)"
proof (cases "ls \<noteq> [] \<and> last ls = []")
  case True
  then have "ls = butlast ls @ [[]]" by (metis append_butlast_last_id)
  then have "set ls = set (butlast ls) \<union> {[]}" by (metis list.set(1,2) set_append Un_insert_right sup_bot.right_neutral)
  with assms True show ?thesis by (auto simp: drop_last_empty_def)
next
  case False
  with assms show ?thesis by (auto simp: drop_last_empty_def)
qed

lemma sublist_py_join:
  assumes "l \<in> set ls" and "sublist lit l"
  shows "sublist lit (py_join sep ls)"
  using assms
proof (induction ls)
  case Nil
  then show ?case by simp
next
  case (Cons x ls)
  show ?case
  proof (cases ls)
    case Nil
    with Cons.prems show ?thesis by simp
  next
    case (Cons y ys)
    have j: "py_join sep (x # ls) = x @ sep @ py_join sep ls" unfolding Cons by simp
    show ?thesis
    proof (cases "l = x")
      case True
      with \<open>sublist lit l\<close> have "sublist lit x" by simp
      then show ?thesis unfolding j using sublist_between [of lit x "[]"] by simp
    next
      case False
      with Cons.prems \<open>l \<in> set (x # ls)\<close> have "sublist lit (py_join sep ls)"
        using Cons.IH by simp
      then show ?thesis unfolding j
        using sublist_between [of lit "py_join sep ls" "x @ sep" "[]"] by simp
    qed
  qed
qed

text \<open>What a pattern matches is made of whitespace and of the characters of its literals.\<close>

lemma match_atoms_consumed:
  assumes "match_atoms p s = Some rest"
    and "\<forall>l. Lit l \<in> set p \<longrightarrow> (\<forall>c\<in>set l. Q c)"
    and "\<forall>c. is_space c \<longrightarrow> Q c"
  shows "\<exists>m. s = m @ rest \<and> (\<forall>c\<in>set m. Q c)"
  using assms(1,2)
proof (induction p s rule: match_atoms.induct)
  case (1 s)
  then show ?case by simp
next
  case (2 atoms s)
  then obtain m where m: "dropWhile is_space s = m @ rest" "\<forall>c\<in>set m. Q c" by auto
  have "s = takeWhile is_space s @ m @ rest" using m(1) by (metis takeWhile_dropWhile_id)
  moreover have "\<forall>c\<in>set (takeWhile is_space s @ m). Q c"
    using m(2) assms(3) by (auto dest: set_takeWhileD)
  ultimately show ?case by (metis append.assoc)
next
  case (3 atoms s)
  show ?case
  proof (cases s)
    case Nil
    with 3 show ?thesis by simp
  next
    case (Cons c cs)
    with 3 have sp: "is_space c" and mt: "match_atoms atoms (dropWhile is_space cs) = Some rest"
      by (auto split: if_splits)
    from 3(1) [OF Cons sp mt] 3(3) obtain m
      where m: "dropWhile is_space cs = m @ rest" "\<forall>c\<in>set m. Q c" by auto
    have "s = (c # takeWhile is_space cs @ m) @ rest"
      unfolding Cons using m(1) by (metis append.assoc append_Cons takeWhile_dropWhile_id)
    moreover have "\<forall>x\<in>set (c # takeWhile is_space cs @ m). Q x"
      using m(2) assms(3) sp by (auto dest: set_takeWhileD)
    ultimately show ?thesis by blast
  qed
next
  case (4 l atoms s)
  then have pl: "prefix l s" and mt: "match_atoms atoms (drop (length l) s) = Some rest"
    by (auto split: if_splits)
  from 4(1) [OF pl mt] 4(3) obtain m
    where m: "drop (length l) s = m @ rest" "\<forall>c\<in>set m. Q c" by auto
  from pl have "s = l @ drop (length l) s" by (auto simp: prefix_def)
  then have "s = (l @ m) @ rest" using m(1) by simp
  moreover have "\<forall>c\<in>set (l @ m). Q c" using m(2) 4(3) by auto
  ultimately show ?case by blast
qed

lemma occurrence_after:
  assumes "a @ lit @ b = m @ rest" and "lit \<noteq> []" and "hd lit \<notin> set m"
  shows "\<exists>a'. rest = a' @ lit @ b"
proof -
  from assms(1) consider us where "a = m @ us" "us @ lit @ b = rest"
    | us where "a @ us = m" "lit @ b = us @ rest"
    by (auto simp: append_eq_append_conv2)
  then show ?thesis
  proof cases
    case 1
    then show ?thesis by blast
  next
    case 2
    show ?thesis
    proof (cases us)
      case Nil
      with 2 have "rest = [] @ lit @ b" by simp
      then show ?thesis by blast
    next
      case (Cons u us')
      with 2(2) assms(2) have "hd lit = u" by (cases lit) auto
      with 2(1) Cons have "hd lit \<in> set m" by auto
      with assms(3) show ?thesis by simp
    qed
  qed
qed

lemma capital_not_matched:
  assumes "capital_start lit" and "rule \<in> set downlevel_rules"
  shows "\<not> is_space (hd lit)" and "\<forall>l. Lit l \<in> set (fst rule) \<longrightarrow> (\<forall>c\<in>set l. c \<noteq> hd lit)"
proof -
  from assms(1) obtain c cs where lit: "lit = c # cs"
    and c: "c \<in> set ''ABCDEFGHIJKLMNOPQRSTUVWXYZ''"
    by (cases lit) (auto simp: capital_start_def)
  from c show "\<not> is_space (hd lit)" unfolding lit by (auto simp: is_space_def)
  have "\<forall>l. Lit l \<in> set (fst rule) \<longrightarrow> set l \<subseteq> set ''for(letconst''"
    using assms(2) by (auto simp: downlevel_rules_def)
  moreover have "c \<notin> set ''for(letconst''" using c by auto
  ultimately show "\<forall>l. Lit l \<in> set (fst rule) \<longrightarrow> (\<forall>c\<in>set l. c \<noteq> hd lit)"
    unfolding lit by auto
qed

lemma re_sub_keeps:
  assumes "capital_start lit" and "rule \<in> set downlevel_rules" and "sublist lit l"
  shows "sublist lit (re_sub (fst rule) (snd rule) l)"
proof (cases "match_atoms (fst rule) l")
  case None
  with assms(3) show ?thesis by (simp add: re_sub_def)
next
  case (Some rest)
  from assms(1) have ne: "lit \<noteq> []" by (auto simp: capital_start_def)
  from capital_not_matched [OF assms(1,2)]
  have q: "\<forall>l. Lit l \<in> set (fst rule) \<longrightarrow> (\<forall>c\<in>set l. c \<noteq> hd lit)"
    "\<forall>c. is_space c \<longrightarrow> c \<noteq> hd lit"
    by auto
  from match_atoms_consumed [OF Some q] obtain m
    where m: "l = m @ rest" "hd lit \<notin> set m" by auto
  from assms(3) obtain a b where "l = a @ lit @ b" by (auto simp: sublist_def)
  with m(1) have "a @ lit @ b = m @ rest" by simp
  from occurrence_after [OF this ne m(2)] obtain a' where "rest = a' @ lit @ b" ..
  then have "snd rule @ rest = (snd rule @ a') @ lit @ b" by simp
  then have "sublist lit (snd rule @ rest)" unfolding sublist_def by blast
  with Some show ?thesis by (simp add: re_sub_def)
qed

lemma downlevel_line_keeps:
  assumes "capital_start lit" and "sublist lit l"
  shows "sublist lit (downlevel_line l)"
proof -
  have "\<And>rules. set rules \<subseteq> set downlevel_rules \<Longrightarrow> sublist lit l \<Longrightarrow>
          sublist lit (foldl (\<lambda>l rule. re_sub (fst rule) (snd rule) l) l rules)" for l
  proof -
    fix rules :: "(atom list \<times> string) list" and l
    assume "set rules \<subseteq> set downlevel_rules" "sublist lit l"
    then show "sublist lit (foldl (\<lambda>l rule. re_sub (fst rule) (snd rule) l) l rules)"
    proof (induction rules arbitrary: l)
      case Nil
      then show ?case by simp
    next
      case (Cons r rules)
      then have "sublist lit (re_sub (fst r) (snd r) l)"
        using re_sub_keeps [OF assms(1)] by simp
      with Cons show ?case by simp
    qed
  qed
  from this [of downlevel_rules l] assms(2) show ?thesis by (simp add: downlevel_line_def)
qed

lemma downlevel_keeps:
  assumes "capital_start lit" and "\<forall>c\<in>set lit. \<not> is_linebreak c" and "sublist lit data"
  shows "sublist lit (downlevel data)"
proof -
  from assms(1) have ne: "lit \<noteq> []" by (auto simp: capital_start_def)
  from assms(3) obtain pre post where "data = pre @ lit @ post" by (auto simp: sublist_def)
  with sublist_in_line [OF ne assms(2), of pre post]
  obtain l where l: "l \<in> set (splitlines data)" "sublist lit l" by auto
  from l(2) ne have "l \<noteq> []" by (auto simp: sublist_def)
  with l(1) have "l \<in> set (drop_last_empty (drop_last_empty (drop_last_empty (splitlines data))))"
    by (intro in_drop_last_empty)
  then have "downlevel_line l \<in> set (map downlevel_line
       (drop_last_empty (drop_last_empty (drop_last_empty (splitlines data)))))"
    by simp
  moreover have "sublist lit (downlevel_line l)"
    by (rule downlevel_line_keeps [OF assms(1) l(2)])
  ultimately show ?thesis
    unfolding downlevel_by_lines by (rule sublist_py_join)
qed

lemma literals_capital:
  "capital_start revision_literal" "capital_start local_modifications_literal"
  "capital_start branch_literal"
  by (simp_all add: capital_start_def revision_literal_def local_modifications_literal_def
      branch_literal_def)

lemma literals_one_line:
  "\<forall>c\<in>set revision_literal. \<not> is_linebreak c"
  "\<forall>c\<in>set local_modifications_literal. \<not> is_linebreak c"
  "\<forall>c\<in>set branch_literal. \<not> is_linebreak c"
  by (simp_all add: is_linebreak_def revision_literal_def local_modifications_literal_def
      branch_literal_def)

lemma stamped_frame:
  assumes "stamp info (pre @ lit @ post) = stamp info pre @ lit @ stamp info post"
  shows "stamped bname info (pre @ lit @ post) =
           stamped bname info pre @ lit @ stamped bname info post"
  using assms by (simp add: stamped_def)

lemma transformed_keeps:
  assumes "capital_start lit" and "\<forall>c\<in>set lit. \<not> is_linebreak c"
    and "stamped bname info data = x @ lit @ y"
  shows "sublist lit (transformed bname info data)"
proof -
  have "sublist lit (stamped bname info data)" unfolding assms(3) sublist_def by blast
  then have "sublist lit (downlevel (stamped bname info data))"
    by (rule downlevel_keeps [OF assms(1,2)])
  then show ?thesis by (simp add: transformed_def stamped_def)
qed

text \<open>
  C4, the claim as stated fails: the pattern \<^verbatim>\<open>^\s*let\s+\<close> matches the indentation with the
  keyword, and the whole match is replaced by \<^verbatim>\<open>var \<close>: the line comes out without its
  indentation.
\<close>

theorem downlevel_drops_indentation:
  "downlevel ''  let x = 1;'' = ''var x = 1;'' \<and> downlevel ''  let x = 1;'' \<noteq> ''  var x = 1;''"
  using downlevel_examples(1) by simp

lemma decl_rule_none:
  assumes "\<not> keyword_at kw (dropWhile is_space line)"
  shows "re_sub [Spaces, Lit kw, Spaces1] r line = line"
proof -
  have "match_atoms [Spaces, Lit kw, Spaces1] line = None"
    using assms by (auto simp: keyword_at_def split: list.splits)
  then show ?thesis by (simp add: re_sub_def)
qed

lemma for_rule_none:
  assumes "\<not> for_keyword_at kw (dropWhile is_space line)"
  shows "re_sub [Spaces, Lit ''for'', Spaces, Lit ''('', Spaces, Lit kw, Spaces1] r line = line"
proof -
  have "match_atoms [Spaces, Lit ''for'', Spaces, Lit ''('', Spaces, Lit kw, Spaces1] line = None"
    using assms by (auto simp: for_keyword_at_def keyword_at_def Let_def split: list.splits)
  then show ?thesis by (simp add: re_sub_def)
qed

text \<open>A line with none of the four shapes is not changed.\<close>

lemma downlevel_line_unchanged:
  assumes "\<not> keyword_at ''let'' (dropWhile is_space line)"
    and "\<not> keyword_at ''const'' (dropWhile is_space line)"
    and "\<not> for_keyword_at ''let'' (dropWhile is_space line)"
    and "\<not> for_keyword_at ''const'' (dropWhile is_space line)"
  shows "downlevel_line line = line"
proof -
  have f1: "re_sub [Spaces, Lit ''for'', Spaces, Lit ''('', Spaces, Lit ''let'', Spaces1]
              ''for(var '' line = line"
    by (rule for_rule_none [OF assms(3)])
  have f2: "re_sub [Spaces, Lit ''let'', Spaces1] ''var '' line = line"
    by (rule decl_rule_none [OF assms(1)])
  have f3: "re_sub [Spaces, Lit ''for'', Spaces, Lit ''('', Spaces, Lit ''const'', Spaces1]
              ''for(var '' line = line"
    by (rule for_rule_none [OF assms(4)])
  have f4: "re_sub [Spaces, Lit ''const'', Spaces1] ''var '' line = line"
    by (rule decl_rule_none [OF assms(2)])
  show ?thesis
    by (simp only: downlevel_line_def downlevel_rules_def foldl.simps fst_conv snd_conv f1 f2 f3 f4)
qed

text \<open>The two shapes, written out.\<close>

lemma keyword_at_iff:
  assumes "kw \<noteq> []" and "\<not> is_space (hd kw)"
  shows "keyword_at kw (dropWhile is_space line) \<longleftrightarrow>
         (\<exists>ws sp rest. line = ws @ kw @ sp @ rest \<and> list_all is_space ws \<and>
                        list_all is_space sp \<and> sp \<noteq> [])"
proof
  assume k: "keyword_at kw (dropWhile is_space line)"
  then obtain c cs where d: "drop (length kw) (dropWhile is_space line) = c # cs" and c: "is_space c"
    by (auto simp: keyword_at_def split: list.splits)
  from k have "dropWhile is_space line = kw @ drop (length kw) (dropWhile is_space line)"
    by (auto simp: keyword_at_def prefix_def)
  with d have "dropWhile is_space line = kw @ [c] @ cs" by simp
  then have "line = takeWhile is_space line @ kw @ [c] @ cs"
    by (metis takeWhile_dropWhile_id)
  moreover have "list_all is_space (takeWhile is_space line)"
    by (simp add: list_all_iff) (meson set_takeWhileD)
  ultimately show "\<exists>ws sp rest. line = ws @ kw @ sp @ rest \<and> list_all is_space ws \<and>
                        list_all is_space sp \<and> sp \<noteq> []"
    using c by (intro exI [of _ "takeWhile is_space line"] exI [of _ "[c]"] exI [of _ cs]) simp
next
  assume "\<exists>ws sp rest. line = ws @ kw @ sp @ rest \<and> list_all is_space ws \<and>
                        list_all is_space sp \<and> sp \<noteq> []"
  then obtain ws sp rest where l: "line = ws @ kw @ sp @ rest" and ws: "list_all is_space ws"
    and sp: "list_all is_space sp" "sp \<noteq> []" by blast
  have "kw @ sp @ rest = [] \<or> \<not> is_space (hd (kw @ sp @ rest))" using assms by simp
  from skip_spaces [OF ws this] have "dropWhile is_space line = kw @ sp @ rest" by (simp add: l)
  moreover from sp obtain c cs where "sp = c # cs" "is_space c" by (cases sp) auto
  ultimately show "keyword_at kw (dropWhile is_space line)" by (simp add: keyword_at_def)
qed

text \<open>The patterns with \<^verbatim>\<open>for\<close> on a line of their shape.\<close>

lemma for_rule_match:
  assumes "list_all is_space ws" "list_all is_space s1" "list_all is_space s2"
    "list_all is_space sp" "sp \<noteq> []" "rest = [] \<or> \<not> is_space (hd rest)"
    and kw: "kw \<noteq> []" "\<not> is_space (hd kw)"
  shows "re_sub [Spaces, Lit ''for'', Spaces, Lit ''('', Spaces, Lit kw, Spaces1] r
           (ws @ ''for'' @ s1 @ ''('' @ s2 @ kw @ sp @ rest) = r @ rest"
proof -
  from assms(4,5) obtain c cs where c: "sp = c # cs" "is_space c" "list_all is_space cs"
    by (cases sp) auto
  have a: "dropWhile is_space (ws @ ''for'' @ s1 @ ''('' @ s2 @ kw @ sp @ rest) =
           ''for'' @ s1 @ ''('' @ s2 @ kw @ sp @ rest"
    by (rule skip_spaces [OF assms(1)]) (simp add: is_space_def)
  have b: "dropWhile is_space (s1 @ ''('' @ s2 @ kw @ sp @ rest) = ''('' @ s2 @ kw @ sp @ rest"
    by (rule skip_spaces [OF assms(2)]) (simp add: is_space_def)
  have d: "dropWhile is_space (s2 @ kw @ sp @ rest) = kw @ sp @ rest"
    by (rule skip_spaces [OF assms(3)]) (use kw in simp)
  have e: "dropWhile is_space (cs @ rest) = rest"
    by (rule skip_spaces [OF c(3) assms(6)])
  have "match_atoms [Spaces, Lit ''for'', Spaces, Lit ''('', Spaces, Lit kw, Spaces1]
          (ws @ ''for'' @ s1 @ ''('' @ s2 @ kw @ sp @ rest) = Some rest"
    using a b d e c(1,2) by simp
  then show ?thesis by (simp add: re_sub_def)
qed

lemma for_rule_other:
  assumes "list_all is_space ws" "list_all is_space s1" "list_all is_space s2"
    and "\<not> prefix kw t" and "t \<noteq> []" "\<not> is_space (hd t)"
  shows "re_sub [Spaces, Lit ''for'', Spaces, Lit ''('', Spaces, Lit kw, Spaces1] r
           (ws @ ''for'' @ s1 @ ''('' @ s2 @ t) = ws @ ''for'' @ s1 @ ''('' @ s2 @ t"
proof -
  have a: "dropWhile is_space (ws @ ''for'' @ s1 @ ''('' @ s2 @ t) = ''for'' @ s1 @ ''('' @ s2 @ t"
    by (rule skip_spaces [OF assms(1)]) (simp add: is_space_def)
  have b: "dropWhile is_space (s1 @ ''('' @ s2 @ t) = ''('' @ s2 @ t"
    by (rule skip_spaces [OF assms(2)]) (simp add: is_space_def)
  have d: "dropWhile is_space (s2 @ t) = t"
    by (rule skip_spaces [OF assms(3)]) (use assms(5,6) in simp)
  have "match_atoms [Spaces, Lit ''for'', Spaces, Lit ''('', Spaces, Lit kw, Spaces1]
          (ws @ ''for'' @ s1 @ ''('' @ s2 @ t) = None"
    using a b d assms(4) by simp
  then show ?thesis by (simp add: re_sub_def)
qed

lemma for_var_kept:
  "re_sub [Spaces, Lit ''for'', Spaces, Lit ''('', Spaces, Lit ''const'', Spaces1] r
     (''for(var '' @ rest) = ''for(var '' @ rest"
  "re_sub [Spaces, Lit ''let'', Spaces1] r (''for(var '' @ rest) = ''for(var '' @ rest"
  "re_sub [Spaces, Lit ''const'', Spaces1] r (''for(var '' @ rest) = ''for(var '' @ rest"
  by (simp_all add: re_sub_def is_space_def)

lemma downlevel_line_for_let:
  assumes "list_all is_space ws" "list_all is_space s1" "list_all is_space s2"
    "list_all is_space sp" "sp \<noteq> []" "rest = [] \<or> \<not> is_space (hd rest)"
  shows "downlevel_line (ws @ ''for'' @ s1 @ ''('' @ s2 @ ''let'' @ sp @ rest) = ''for(var '' @ rest"
proof -
  define line where "line = ws @ ''for'' @ s1 @ ''('' @ s2 @ ''let'' @ sp @ rest"
  define out where "out = ''for(var '' @ rest"
  have f1: "re_sub [Spaces, Lit ''for'', Spaces, Lit ''('', Spaces, Lit ''let'', Spaces1]
              ''for(var '' line = out"
    unfolding line_def out_def by (rule for_rule_match [OF assms]) (simp_all add: is_space_def)
  have f2: "re_sub [Spaces, Lit ''let'', Spaces1] ''var '' out = out"
    unfolding out_def by (rule for_var_kept)
  have f3: "re_sub [Spaces, Lit ''for'', Spaces, Lit ''('', Spaces, Lit ''const'', Spaces1]
              ''for(var '' out = out"
    unfolding out_def by (rule for_var_kept)
  have f4: "re_sub [Spaces, Lit ''const'', Spaces1] ''var '' out = out"
    unfolding out_def by (rule for_var_kept)
  have "downlevel_line line = out"
    by (simp only: downlevel_line_def downlevel_rules_def foldl.simps fst_conv snd_conv f1 f2 f3 f4)
  then show ?thesis unfolding line_def out_def .
qed

lemma downlevel_line_for_const:
  assumes "list_all is_space ws" "list_all is_space s1" "list_all is_space s2"
    "list_all is_space sp" "sp \<noteq> []" "rest = [] \<or> \<not> is_space (hd rest)"
  shows "downlevel_line (ws @ ''for'' @ s1 @ ''('' @ s2 @ ''const'' @ sp @ rest) =
           ''for(var '' @ rest"
proof -
  define line where "line = ws @ ''for'' @ s1 @ ''('' @ s2 @ ''const'' @ sp @ rest"
  define out where "out = ''for(var '' @ rest"
  have f1: "re_sub [Spaces, Lit ''for'', Spaces, Lit ''('', Spaces, Lit ''let'', Spaces1]
              ''for(var '' line = line"
    unfolding line_def
    by (rule for_rule_other [OF assms(1,2,3)]) (simp_all add: is_space_def)
  have "dropWhile is_space line = ''for'' @ s1 @ ''('' @ s2 @ ''const'' @ sp @ rest"
    unfolding line_def by (rule skip_spaces [OF assms(1)]) (simp add: is_space_def)
  then have np: "\<not> prefix ''let'' (dropWhile is_space line)" by simp
  have f2: "re_sub [Spaces, Lit ''let'', Spaces1] ''var '' line = line"
    by (rule decl_rule_skip [OF np])
  have f3: "re_sub [Spaces, Lit ''for'', Spaces, Lit ''('', Spaces, Lit ''const'', Spaces1]
              ''for(var '' line = out"
    unfolding line_def out_def by (rule for_rule_match [OF assms]) (simp_all add: is_space_def)
  have f4: "re_sub [Spaces, Lit ''const'', Spaces1] ''var '' out = out"
    unfolding out_def by (rule for_var_kept)
  have "downlevel_line line = out"
    by (simp only: downlevel_line_def downlevel_rules_def foldl.simps fst_conv snd_conv f1 f2 f3 f4)
  then show ?thesis unfolding line_def out_def .
qed

lemma spaces_takeWhile: "list_all is_space (takeWhile is_space s)"
  by (simp add: list_all_iff) (meson set_takeWhileD)

lemma for_keyword_at_iff:
  assumes "kw \<noteq> []" and "\<not> is_space (hd kw)"
  shows "for_keyword_at kw (dropWhile is_space line) \<longleftrightarrow>
         (\<exists>ws s1 s2 sp rest. line = ws @ ''for'' @ s1 @ ''('' @ s2 @ kw @ sp @ rest \<and>
            list_all is_space ws \<and> list_all is_space s1 \<and> list_all is_space s2 \<and>
            list_all is_space sp \<and> sp \<noteq> [])"
proof
  assume f: "for_keyword_at kw (dropWhile is_space line)"
  define t1 where "t1 = drop (length ''for'') (dropWhile is_space line)"
  define u1 where "u1 = drop (length ''('') (dropWhile is_space t1)"
  from f have p1: "prefix ''for'' (dropWhile is_space line)"
    and p2: "prefix ''('' (dropWhile is_space t1)"
    and k: "keyword_at kw (dropWhile is_space u1)"
    unfolding for_keyword_at_def Let_def t1_def u1_def by blast+
  from p1 have e1: "dropWhile is_space line = ''for'' @ t1"
    unfolding t1_def by (metis append_eq_conv_conj prefix_def)
  from p2 have e2: "dropWhile is_space t1 = ''('' @ u1"
    unfolding u1_def by (metis append_eq_conv_conj prefix_def)
  from k keyword_at_iff [OF assms, of u1] obtain s2 sp rest
    where e3: "u1 = s2 @ kw @ sp @ rest" and s: "list_all is_space s2" "list_all is_space sp"
      "sp \<noteq> []" by blast
  have "line = takeWhile is_space line @ dropWhile is_space line" by simp
  also have "\<dots> = takeWhile is_space line @ ''for'' @ t1" by (simp only: e1)
  finally have l1: "line = takeWhile is_space line @ ''for'' @ t1" .
  have "t1 = takeWhile is_space t1 @ dropWhile is_space t1" by simp
  also have "\<dots> = takeWhile is_space t1 @ ''('' @ s2 @ kw @ sp @ rest" by (simp only: e2 e3)
  finally have l2: "t1 = takeWhile is_space t1 @ ''('' @ s2 @ kw @ sp @ rest" .
  from l1 l2 have "line = takeWhile is_space line @ ''for'' @ takeWhile is_space t1 @ ''('' @
      s2 @ kw @ sp @ rest"
    by metis
  with s spaces_takeWhile [of line] spaces_takeWhile [of t1]
  show "\<exists>ws s1 s2 sp rest. line = ws @ ''for'' @ s1 @ ''('' @ s2 @ kw @ sp @ rest \<and>
            list_all is_space ws \<and> list_all is_space s1 \<and> list_all is_space s2 \<and>
            list_all is_space sp \<and> sp \<noteq> []"
    by blast
next
  assume "\<exists>ws s1 s2 sp rest. line = ws @ ''for'' @ s1 @ ''('' @ s2 @ kw @ sp @ rest \<and>
            list_all is_space ws \<and> list_all is_space s1 \<and> list_all is_space s2 \<and>
            list_all is_space sp \<and> sp \<noteq> []"
  then obtain ws s1 s2 sp rest
    where l: "line = ws @ ''for'' @ s1 @ ''('' @ s2 @ kw @ sp @ rest"
      and s: "list_all is_space ws" "list_all is_space s1" "list_all is_space s2"
        "list_all is_space sp" "sp \<noteq> []"
    by blast
  have a: "dropWhile is_space line = ''for'' @ s1 @ ''('' @ s2 @ kw @ sp @ rest"
    unfolding l by (rule skip_spaces [OF s(1)]) (simp add: is_space_def)
  have b: "dropWhile is_space (s1 @ ''('' @ s2 @ kw @ sp @ rest) = ''('' @ s2 @ kw @ sp @ rest"
    by (rule skip_spaces [OF s(2)]) (simp add: is_space_def)
  have "keyword_at kw (dropWhile is_space (s2 @ kw @ sp @ rest))"
    unfolding keyword_at_iff [OF assms] using s(3,4,5) by blast
  with a b show "for_keyword_at kw (dropWhile is_space line)"
    by (simp add: for_keyword_at_def)
qed

text \<open>
  C4, amended: for any input text, the result is the lines of the text, each rewritten on
  its own and joined with \<^verbatim>\<open>\n\<close> (up to three empty lines at the end are lost).  A line
  that starts, after any indentation, with \<^verbatim>\<open>let\<close> or \<^verbatim>\<open>const\<close> and whitespace becomes
  \<^verbatim>\<open>var \<close> followed by the rest of the line: the indentation and the whitespace after
  the keyword are replaced with the keyword.  A line that starts, after any indentation,
  with \<^verbatim>\<open>for\<close>, an opening parenthesis, \<^verbatim>\<open>let\<close> or \<^verbatim>\<open>const\<close> and whitespace, with any
  whitespace between the three, becomes \<^verbatim>\<open>for(var \<close> followed by the rest of the line.
  Every other line is left as it is: a line where the keyword is not at the start, where
  it is the start of a longer word, or where it follows a \<^verbatim>\<open>for (\<close> with something
  between.
\<close>

theorem downlevel_line_anchored:
  "downlevel data =
     py_join [CHR 0x0A]
       (map downlevel_line
          (drop_last_empty (drop_last_empty (drop_last_empty (splitlines data))))) \<and>
   (list_all is_space ws \<and> list_all is_space sp \<and> sp \<noteq> [] \<and>
    (rest = [] \<or> \<not> is_space (hd rest)) \<longrightarrow>
      downlevel_line (ws @ ''let'' @ sp @ rest) = ''var '' @ rest \<and>
      downlevel_line (ws @ ''const'' @ sp @ rest) = ''var '' @ rest) \<and>
   (list_all is_space ws \<and> list_all is_space s1 \<and> list_all is_space s2 \<and>
    list_all is_space sp \<and> sp \<noteq> [] \<and> (rest = [] \<or> \<not> is_space (hd rest)) \<longrightarrow>
      downlevel_line (ws @ ''for'' @ s1 @ ''('' @ s2 @ ''let'' @ sp @ rest) = ''for(var '' @ rest \<and>
      downlevel_line (ws @ ''for'' @ s1 @ ''('' @ s2 @ ''const'' @ sp @ rest) =
        ''for(var '' @ rest) \<and>
   (\<not> keyword_at ''let'' (dropWhile is_space line) \<and>
    \<not> keyword_at ''const'' (dropWhile is_space line) \<and>
    \<not> for_keyword_at ''let'' (dropWhile is_space line) \<and>
    \<not> for_keyword_at ''const'' (dropWhile is_space line) \<longrightarrow>
      downlevel_line line = line)"
proof (intro conjI impI)
  show "downlevel data =
     py_join [CHR 0x0A]
       (map downlevel_line
          (drop_last_empty (drop_last_empty (drop_last_empty (splitlines data)))))"
    by (rule downlevel_by_lines)
next
  assume a: "list_all is_space ws \<and> list_all is_space sp \<and> sp \<noteq> [] \<and>
    (rest = [] \<or> \<not> is_space (hd rest))"
  then show "downlevel_line (ws @ ''let'' @ sp @ rest) = ''var '' @ rest"
    by (intro downlevel_line_let) simp_all
  from a show "downlevel_line (ws @ ''const'' @ sp @ rest) = ''var '' @ rest"
    by (intro downlevel_line_const) simp_all
next
  assume a: "list_all is_space ws \<and> list_all is_space s1 \<and> list_all is_space s2 \<and>
    list_all is_space sp \<and> sp \<noteq> [] \<and> (rest = [] \<or> \<not> is_space (hd rest))"
  then show "downlevel_line (ws @ ''for'' @ s1 @ ''('' @ s2 @ ''let'' @ sp @ rest) =
      ''for(var '' @ rest"
    by (intro downlevel_line_for_let) simp_all
  from a show "downlevel_line (ws @ ''for'' @ s1 @ ''('' @ s2 @ ''const'' @ sp @ rest) =
      ''for(var '' @ rest"
    by (intro downlevel_line_for_const) simp_all
next
  assume "\<not> keyword_at ''let'' (dropWhile is_space line) \<and>
    \<not> keyword_at ''const'' (dropWhile is_space line) \<and>
    \<not> for_keyword_at ''let'' (dropWhile is_space line) \<and>
    \<not> for_keyword_at ''const'' (dropWhile is_space line)"
  then show "downlevel_line line = line"
    by (intro downlevel_line_unchanged) simp_all
qed

theorem downlevel_line_anchored_witness:
  "downlevel ''  let x = 1;\<newline>foo(let, x)\<newline>'' = ''var x = 1;\<newline>foo(let, x)'' \<and>
   downlevel_line ''  let x = 1;'' = ''var x = 1;'' \<and>
   downlevel_line ''  for (let i = 0; i < n; i++) {'' = ''for(var i = 0; i < n; i++) {'' \<and>
   downlevel_line ''foo(let, x)'' = ''foo(let, x)'' \<and>
   downlevel_line ''letters.push(let);'' = ''letters.push(let);'' \<and>
   downlevel_line ''constant = 1;'' = ''constant = 1;'' \<and>
   downlevel_line ''for (i = 0; i < n; i++) { let x = i; }'' =
     ''for (i = 0; i < n; i++) { let x = i; }''"
proof -
  have sp: "list_all is_space ''  ''" "list_all is_space '' ''" "list_all is_space []"
    "\<not> is_space (hd ''x = 1;'')" "\<not> is_space (hd ''i = 0; i < n; i++) {'')"
    by (simp_all add: is_space_def)
  have u1: "\<not> keyword_at ''let'' (dropWhile is_space ''foo(let, x)'') \<and>
      \<not> keyword_at ''const'' (dropWhile is_space ''foo(let, x)'') \<and>
      \<not> for_keyword_at ''let'' (dropWhile is_space ''foo(let, x)'') \<and>
      \<not> for_keyword_at ''const'' (dropWhile is_space ''foo(let, x)'')"
    by (simp add: keyword_at_def for_keyword_at_def is_space_def)
  have u2: "\<not> keyword_at ''let'' (dropWhile is_space ''letters.push(let);'') \<and>
      \<not> keyword_at ''const'' (dropWhile is_space ''letters.push(let);'') \<and>
      \<not> for_keyword_at ''let'' (dropWhile is_space ''letters.push(let);'') \<and>
      \<not> for_keyword_at ''const'' (dropWhile is_space ''letters.push(let);'')"
    by (simp add: keyword_at_def for_keyword_at_def is_space_def)
  have u3: "\<not> keyword_at ''let'' (dropWhile is_space ''constant = 1;'') \<and>
      \<not> keyword_at ''const'' (dropWhile is_space ''constant = 1;'') \<and>
      \<not> for_keyword_at ''let'' (dropWhile is_space ''constant = 1;'') \<and>
      \<not> for_keyword_at ''const'' (dropWhile is_space ''constant = 1;'')"
    by (simp add: keyword_at_def for_keyword_at_def is_space_def)
  have u4: "\<not> keyword_at ''let'' (dropWhile is_space ''for (i = 0; i < n; i++) { let x = i; }'') \<and>
      \<not> keyword_at ''const'' (dropWhile is_space ''for (i = 0; i < n; i++) { let x = i; }'') \<and>
      \<not> for_keyword_at ''let'' (dropWhile is_space ''for (i = 0; i < n; i++) { let x = i; }'') \<and>
      \<not> for_keyword_at ''const'' (dropWhile is_space ''for (i = 0; i < n; i++) { let x = i; }'')"
    by (simp add: keyword_at_def for_keyword_at_def is_space_def)
  have lines: "drop_last_empty (drop_last_empty (drop_last_empty
      (splitlines ''  let x = 1;\<newline>foo(let, x)\<newline>''))) = [''  let x = 1;'', ''foo(let, x)'']"
    by (simp add: is_linebreak_def drop_last_empty_def)
  from downlevel_line_anchored
    [of "''  let x = 1;\<newline>foo(let, x)\<newline>''" "''  ''" "'' ''" "''x = 1;''" "[]" "[]"
        "''foo(let, x)''"]
    sp u1
  have d: "downlevel ''  let x = 1;\<newline>foo(let, x)\<newline>'' =
      py_join [CHR 0x0A] (map downlevel_line [''  let x = 1;'', ''foo(let, x)''])"
    and l: "downlevel_line ''  let x = 1;'' = ''var x = 1;''"
    and f: "downlevel_line ''foo(let, x)'' = ''foo(let, x)''"
    unfolding lines by simp_all
  from downlevel_line_anchored
    [of "[]" "''  ''" "'' ''" "''i = 0; i < n; i++) {''" "'' ''" "[]" "''letters.push(let);''"]
    sp u2
  have g: "downlevel_line ''  for (let i = 0; i < n; i++) {'' = ''for(var i = 0; i < n; i++) {''"
    and h: "downlevel_line ''letters.push(let);'' = ''letters.push(let);''"
    by simp_all
  from downlevel_line_anchored [where line = "''constant = 1;''"] u3
  have i: "downlevel_line ''constant = 1;'' = ''constant = 1;''" by simp
  from downlevel_line_anchored [where line = "''for (i = 0; i < n; i++) { let x = i; }''"]
    u4
  have j: "downlevel_line ''for (i = 0; i < n; i++) { let x = i; }'' =
     ''for (i = 0; i < n; i++) { let x = i; }''" by simp
  from d l f g h i j show ?thesis by simp
qed

text \<open>
  C8: with an empty mapping the stamping leaves the whole text as it is.  With a field
  absent from the mapping, every occurrence of that field's default literal stands
  unchanged in the stamped text, between the stamped text before it and the stamped text
  after it; and the literal still occurs in the text after the downleveling.
\<close>

theorem stamping_keeps_absent_literals:
  "stamped bname [] data = data \<and>
   (dict_get info ''REVISION'' = None \<longrightarrow>
      stamped bname info (pre @ revision_literal @ post) =
        stamped bname info pre @ revision_literal @ stamped bname info post \<and>
      sublist revision_literal (transformed bname info (pre @ revision_literal @ post))) \<and>
   (dict_get info ''LOCAL_MODIFICATIONS'' = None \<longrightarrow>
      stamped bname info (pre @ local_modifications_literal @ post) =
        stamped bname info pre @ local_modifications_literal @ stamped bname info post \<and>
      sublist local_modifications_literal
        (transformed bname info (pre @ local_modifications_literal @ post))) \<and>
   (dict_get info ''BRANCH'' = None \<longrightarrow>
      stamped bname info (pre @ branch_literal @ post) =
        stamped bname info pre @ branch_literal @ stamped bname info post \<and>
      sublist branch_literal (transformed bname info (pre @ branch_literal @ post)))"
proof (intro conjI impI)
  show "stamped bname [] data = data" by (rule stamped_empty)
next
  assume a: "dict_get info ''REVISION'' = None"
  show f: "stamped bname info (pre @ revision_literal @ post) =
        stamped bname info pre @ revision_literal @ stamped bname info post"
    by (rule stamped_frame [OF stamp_frame_revision [OF a]])
  show "sublist revision_literal (transformed bname info (pre @ revision_literal @ post))"
    by (rule transformed_keeps [OF literals_capital(1) literals_one_line(1) f])
next
  assume a: "dict_get info ''LOCAL_MODIFICATIONS'' = None"
  show f: "stamped bname info (pre @ local_modifications_literal @ post) =
        stamped bname info pre @ local_modifications_literal @ stamped bname info post"
    by (rule stamped_frame [OF stamp_frame_local_modifications [OF a]])
  show "sublist local_modifications_literal
        (transformed bname info (pre @ local_modifications_literal @ post))"
    by (rule transformed_keeps [OF literals_capital(2) literals_one_line(2) f])
next
  assume a: "dict_get info ''BRANCH'' = None"
  show f: "stamped bname info (pre @ branch_literal @ post) =
        stamped bname info pre @ branch_literal @ stamped bname info post"
    by (rule stamped_frame [OF stamp_frame_branch [OF a]])
  show "sublist branch_literal (transformed bname info (pre @ branch_literal @ post))"
    by (rule transformed_keeps [OF literals_capital(3) literals_one_line(3) f])
qed

theorem stamping_keeps_absent_literals_witness:
  "dict_get [(''BRANCH'', PStr ''fix'')] ''REVISION'' = None \<and>
   stamped ''Utilities.js'' [(''BRANCH'', PStr ''fix'')]
     (''  '' @ revision_literal @ (CHR 0x0A # ''  '' @ branch_literal)) =
   ''  '' @ revision_literal @
     (CHR 0x0A # ''  BRANCH : '' @ [CHR 0x22] @ ''fix'' @ [CHR 0x22] @ '','')"
proof -
  have a: "dict_get [(''BRANCH'', PStr ''fix'')] ''REVISION'' = None"
    by (simp add: dict_get_def)
  have b: "stamped ''Utilities.js'' [(''BRANCH'', PStr ''fix'')] ''  '' = ''  ''"
    by (simp add: stamped_def stamp_def info_get_def dict_get_def py_replace_def
        branch_literal_def)
  have c: "stamped ''Utilities.js'' [(''BRANCH'', PStr ''fix'')]
             (CHR 0x0A # ''  '' @ branch_literal) =
           CHR 0x0A # ''  BRANCH : '' @ [CHR 0x22] @ ''fix'' @ [CHR 0x22] @ '',''"
    by (simp add: stamped_def stamp_def info_get_def dict_get_def py_replace_def
        branch_literal_def)
  from stamping_keeps_absent_literals
    [of "''Utilities.js''" "''''" "[(''BRANCH'', PStr ''fix'')]" "''  ''"
        "CHR 0x0A # ''  '' @ branch_literal"] a b c
  show ?thesis by simp
qed

section \<open>The pipeline: properties\<close>

lemma remove_regular:
  assumes "regular_or_absent fs p"
  shows "remove_existing fs p = Inr (fs(p := None))"
proof (cases "fs p")
  case None
  then have "realpath fs p = Some p" by (rule realpath_missing)
  with None have "\<not> path_exists fs p" by (simp add: path_exists_def)
  moreover from None have "fs(p := None) = fs" by (simp add: fun_upd_idem)
  ultimately show ?thesis by (simp add: remove_existing_def)
next
  case (Some nd)
  with assms obtain c where c: "fs p = Some (File c)"
    by (cases nd) (simp_all add: regular_or_absent_def)
  then have "realpath fs p = Some p" by (rule realpath_file)
  with c have "path_exists fs p" by (simp add: path_exists_def)
  with c show ?thesis by (simp add: remove_existing_def unlink_def)
qed

lemma path_exists_tool_files:
  "path_exists (tool_files e cmd p fs) p = (written (run e cmd (fs(p := None))) \<noteq> None)"
proof (cases "written (run e cmd (fs(p := None)))")
  case None
  then have t: "tool_files e cmd p fs = fs(p := None)" by (simp add: tool_files_def)
  have "realpath (fs(p := None)) p = Some p" by (rule realpath_missing) simp
  with None show ?thesis unfolding t by (simp add: path_exists_def)
next
  case (Some c)
  then have t: "tool_files e cmd p fs = fs(p \<mapsto> File c)" by (simp add: tool_files_def)
  have "realpath (fs(p \<mapsto> File c)) p = Some p" by (rule realpath_file) simp
  with Some show ?thesis unfolding t by (simp add: path_exists_def)
qed


lemma tool_files_other: "q \<noteq> p \<Longrightarrow> tool_files e cmd p fs q = fs q"
  by (simp add: tool_files_def split: option.splits)

lemma get_status_output_cleared:
  "get_status_output e cmd target (s\<lparr>files := (files s)(target := None)\<rparr>) =
     ((returncode (run e cmd ((files s)(target := None))),
       stdout_text (run e cmd ((files s)(target := None)))),
      s\<lparr>files := tool_files e cmd target (files s), trace := trace s @ [Ran cmd]\<rparr>)"
  by (simp add: get_status_output_def tool_files_def Let_def split: option.splits)

text \<open>The two steps on a sidecar path that is free or holds a regular file.\<close>

lemma gzip_step_effect:
  assumes "regular_or_absent (files s) (dst @ ''.gz'')"
  shows "gzip_step e dst s =
           Inr (s\<lparr>files := tool_files e (gzip_cmd dst) (dst @ ''.gz'') (files s),
                  trace := trace s @ [Ran (gzip_cmd dst)]\<rparr>)"
proof -
  define s2 where "s2 = s\<lparr>files := tool_files e (gzip_cmd dst) (dst @ ''.gz'') (files s),
                           trace := trace s @ [Ran (gzip_cmd dst)]\<rparr>"
  have g: "get_status_output e (gzip_cmd dst) (dst @ ''.gz'')
             (s\<lparr>files := (files s)(dst @ ''.gz'' := None)\<rparr>) =
           ((returncode (run e (gzip_cmd dst) ((files s)(dst @ ''.gz'' := None))),
             stdout_text (run e (gzip_cmd dst) ((files s)(dst @ ''.gz'' := None)))), s2)"
    unfolding s2_def by (rule get_status_output_cleared)
  have c: "(if path_exists (files s2) (dst @ ''.gz'') then chmod (files s2) (dst @ ''.gz'')
            else Inr (files s2)) = Inr (files s2)"
    by (simp add: chmod_def)
  have "gzip_step e dst s = Inr (s2\<lparr>files := files s2\<rparr>)"
    unfolding gzip_step_def Let_def remove_regular [OF assms]
    by (simp only: ebind.simps g prod.case c)
  then show ?thesis unfolding s2_def by simp
qed

lemma commands_append: "commands (a @ b) = commands a @ commands b"
  by (simp add: commands_def)

lemma brotli_step_effect:
  assumes "regular_or_absent (files s) (dst @ ''.br'')"
  shows "\<exists>c t. brotli_step e cfg bc dst s =
           Inr (c, s\<lparr>files := tool_files e (brotli_args cfg bc dst) (dst @ ''.br'') (files s),
                     trace := trace s @ Ran (brotli_args cfg bc dst) # t\<rparr>) \<and>
           commands t = []"
proof -
  define cmd where "cmd = brotli_args cfg bc dst"
  define r where "r = run e cmd ((files s)(dst @ ''.br'' := None))"
  define s2 where "s2 = s\<lparr>files := tool_files e cmd (dst @ ''.br'') (files s),
                           trace := trace s @ [Ran cmd]\<rparr>"
  have g: "get_status_output e cmd (dst @ ''.br'')
             (s\<lparr>files := (files s)(dst @ ''.br'' := None)\<rparr>) =
           ((returncode r, stdout_text r), s2)"
    unfolding s2_def r_def by (rule get_status_output_cleared)
  have b: "brotli_step e cfg bc dst s =
      (if returncode r \<noteq> 0
       then Inr (Next, s2\<lparr>trace := trace s2 @ [BrotliError (returncode r)]\<rparr>)
       else if path_exists (files s2) (dst @ ''.br'')
       then ebind (chmod (files s2) (dst @ ''.br'')) (\<lambda>fs3. Inr (Break, s2\<lparr>files := fs3\<rparr>))
       else Inr (Next, s2\<lparr>trace := trace s2 @ [BrotliMissing (dst @ ''.br'')]\<rparr>))"
    unfolding brotli_step_def Let_def remove_regular [OF assms] cmd_def [symmetric]
    by (simp only: ebind.simps g prod.case)
  consider "returncode r \<noteq> 0"
    | "returncode r = 0" "path_exists (files s2) (dst @ ''.br'')"
    | "returncode r = 0" "\<not> path_exists (files s2) (dst @ ''.br'')"
    by blast
  then show ?thesis
  proof cases
    case 1
    with b have "brotli_step e cfg bc dst s =
        Inr (Next, s\<lparr>files := tool_files e cmd (dst @ ''.br'') (files s),
                      trace := trace s @ Ran cmd # [BrotliError (returncode r)]\<rparr>)"
      by (simp add: s2_def)
    moreover have "commands [BrotliError (returncode r)] = []" by (simp add: commands_def)
    ultimately show ?thesis unfolding cmd_def by blast
  next
    case 2
    with b have "brotli_step e cfg bc dst s =
        Inr (Break, s\<lparr>files := tool_files e cmd (dst @ ''.br'') (files s),
                       trace := trace s @ Ran cmd # []\<rparr>)"
      by (simp add: s2_def chmod_def)
    moreover have "commands [] = []" by (simp add: commands_def)
    ultimately show ?thesis unfolding cmd_def by blast
  next
    case 3
    with b have "brotli_step e cfg bc dst s =
        Inr (Next, s\<lparr>files := tool_files e cmd (dst @ ''.br'') (files s),
                      trace := trace s @ Ran cmd # [BrotliMissing (dst @ ''.br'')]\<rparr>)"
      by (simp add: s2_def)
    moreover have "commands [BrotliMissing (dst @ ''.br'')] = []" by (simp add: commands_def)
    ultimately show ?thesis unfolding cmd_def by blast
  qed
qed

lemma sidecars_differ: "dst @ ''.gz'' \<noteq> dst @ ''.br''" "dst @ ''.br'' \<noteq> dst @ ''.gz''"
  by simp_all

lemma regular_or_absent_gzipped:
  assumes "regular_or_absent fs (dst @ ''.br'')"
  shows "regular_or_absent (gzipped e cfg dst fs) (dst @ ''.br'')"
  using assms tool_files_other [OF sidecars_differ(2), of e "gzip_cmd dst" dst fs]
  by (simp add: gzipped_def regular_or_absent_def)

text \<open>
  The whole compression of a file that is not a \<^verbatim>\<open>png\<close>: it does not fail, and the files
  and the commands after it are those of the steps that are switched on.
\<close>

lemma compress_effect:
  assumes "ftype \<noteq> ''png''"
    and "regular_or_absent (files s) (dst @ ''.gz'')"
    and "regular_or_absent (files s) (dst @ ''.br'')"
  shows "\<exists>c s'. compress e cfg ftype dst s = Inr (c, s') \<and>
           files s' =
             (if brotli_found cfg
              then tool_files e (brotli_args cfg (located cfg) dst) (dst @ ''.br'')
                     (gzipped e cfg dst (files s))
              else gzipped e cfg dst (files s)) \<and>
           commands (trace s') =
             commands (trace s) @ (if gzip cfg then [gzip_cmd dst] else []) @
             (if brotli_found cfg then [brotli_args cfg (located cfg) dst] else [])"
proof -
  define s1 where "s1 = (if gzip cfg
      then s\<lparr>files := tool_files e (gzip_cmd dst) (dst @ ''.gz'') (files s),
             trace := trace s @ [Ran (gzip_cmd dst)]\<rparr>
      else s)"
  have f1: "files s1 = gzipped e cfg dst (files s)" by (simp add: s1_def gzipped_def)
  have t1: "commands (trace s1) = commands (trace s) @ (if gzip cfg then [gzip_cmd dst] else [])"
    by (simp add: s1_def commands_def)
  have g: "(if gzip cfg then gzip_step e dst s else Inr s) = Inr s1"
    using gzip_step_effect [OF assms(2), of e] by (simp add: s1_def)
  have c: "compress e cfg ftype dst s =
      (if brotli_found cfg then brotli_step e cfg (located cfg) dst s1 else Inr (Next, s1))"
    unfolding compress_def located_def using assms(1) by (simp only: g ebind.simps if_False)
  show ?thesis
  proof (cases "brotli_found cfg")
    case False
    with c f1 t1 show ?thesis by simp
  next
    case True
    have "regular_or_absent (files s1) (dst @ ''.br'')"
      unfolding f1 by (rule regular_or_absent_gzipped [OF assms(3)])
    from brotli_step_effect [OF this, of e cfg "located cfg"] obtain c' t
      where b: "brotli_step e cfg (located cfg) dst s1 =
           Inr (c', s1\<lparr>files := tool_files e (brotli_args cfg (located cfg) dst) (dst @ ''.br'')
                                  (files s1),
                     trace := trace s1 @ Ran (brotli_args cfg (located cfg) dst) # t\<rparr>)"
        and t: "commands t = []" by blast
    have "commands (trace s1 @ Ran (brotli_args cfg (located cfg) dst) # t) =
        commands (trace s1) @ [brotli_args cfg (located cfg) dst]"
      using t by (simp add: commands_def)
    with True c b f1 t1 show ?thesis by simp
  qed
qed

text \<open>
  C1: the \<^verbatim>\<open>break\<close> after a brotli sidecar that exists leaves the loop over the files of
  the directory.  In a run on the two style sheets with brotli located, \<^verbatim>\<open>a.css\<close> is
  copied and compressed, and \<^verbatim>\<open>b.css\<close> is neither linked, nor copied, nor minified:
  nothing is printed for it and its destination does not exist.  The same run without
  brotli installs both.
\<close>

theorem install_html5_break_skips_rest:
  "map_sum id (\<lambda>s. (trace s, files s ''www/a.css'', files s ''www/b.css''))
     (install_html5 env_run ''www'' (Some ''copy'') True True fs_run) =
   Inr ([Copied ''a.css'', Ran [''gzip'', ''-f'', ''-n'', ''-9'', ''-k'', ''www/a.css''],
         Ran [''/usr/bin/brotli'', ''-k'', ''www/a.css'']],
        Some (File ''a {}''), None) \<and>
   map_sum id (\<lambda>s. (trace s, files s ''www/a.css'', files s ''www/b.css''))
     (install_html5 env_run ''www'' (Some ''copy'') True False fs_run) =
   Inr ([Copied ''a.css'', Ran [''gzip'', ''-f'', ''-n'', ''-9'', ''-k'', ''www/a.css''],
         Copied ''b.css'', Ran [''gzip'', ''-f'', ''-n'', ''-9'', ''-k'', ''www/b.css'']],
        Some (File ''a {}''), Some (File ''b {}''))"
  by code_simp








text \<open>
  Two runs of the whole installation, the second on the files that the first left: the
  four sidecar paths hold the same after the second run as after the first, with brotli
  on the system and without it.
\<close>

lemma install_html5_second_run:
  "map_sum id
     (\<lambda>s. map_sum id
            (\<lambda>s2. map (files s2) [''www/a.css.gz'', ''www/a.css.br'', ''www/b.css.gz'', ''www/b.css.br''] =
                   map (files s) [''www/a.css.gz'', ''www/a.css.br'', ''www/b.css.gz'', ''www/b.css.br''])
            (install_html5 env_run ''www'' (Some ''copy'') True True (files s)))
     (install_html5 env_run ''www'' (Some ''copy'') True True fs_stale) = Inr (Inr True) \<and>
   map_sum id
     (\<lambda>s. map_sum id
            (\<lambda>s2. map (files s2) [''www/a.css.gz'', ''www/a.css.br'', ''www/b.css.gz'', ''www/b.css.br''] =
                   map (files s) [''www/a.css.gz'', ''www/a.css.br'', ''www/b.css.gz'', ''www/b.css.br''])
            (install_html5 env_run ''www'' (Some ''copy'') True True (files s)))
     (install_html5 env_run ''www'' (Some ''copy'') True True fs_run) = Inr (Inr True)"
  by code_simp

lemma ebind_Inr: "ebind x f = Inr r \<Longrightarrow> \<exists>y. x = Inr y \<and> f y = Inr r"
  by (cases x) simp_all

lemma get_status_output_trace:
  "get_status_output e cmd target s = (r, s2) \<Longrightarrow> trace s2 = trace s @ [Ran cmd]"
  by (auto simp: get_status_output_def Let_def)

lemma gzip_step_trace:
  assumes "gzip_step e dst s = Inr s1"
  shows "trace s1 = trace s @ [Ran (gzip_cmd dst)]"
proof -
  from assms obtain fs1 where
    g: "(case get_status_output e (gzip_cmd dst) (dst @ ''.gz'') (s\<lparr>files := fs1\<rparr>) of
          (r, s2) \<Rightarrow>
            ebind (if path_exists (files s2) (dst @ ''.gz'') then chmod (files s2) (dst @ ''.gz'')
                   else Inr (files s2))
              (\<lambda>fs3. Inr (s2\<lparr>files := fs3\<rparr>))) = Inr s1"
    unfolding gzip_step_def Let_def by (auto dest: ebind_Inr)
  obtain r s2 where o: "get_status_output e (gzip_cmd dst) (dst @ ''.gz'') (s\<lparr>files := fs1\<rparr>) = (r, s2)"
    by (cases "get_status_output e (gzip_cmd dst) (dst @ ''.gz'') (s\<lparr>files := fs1\<rparr>)")
  from get_status_output_trace [OF o] have t: "trace s2 = trace s @ [Ran (gzip_cmd dst)]" by simp
  from g o obtain fs3 where "s1 = s2\<lparr>files := fs3\<rparr>" by (auto dest: ebind_Inr)
  with t show ?thesis by simp
qed

lemma brotli_step_trace:
  assumes "brotli_step e cfg bc dst s = Inr (c, s')"
  shows "\<exists>t. trace s' = trace s @ Ran (brotli_args cfg bc dst) # t"
proof -
  from assms obtain fs1 where
    g: "(case get_status_output e (brotli_args cfg bc dst) (dst @ ''.br'') (s\<lparr>files := fs1\<rparr>) of
          ((code, out), s2) \<Rightarrow>
             if code \<noteq> 0 then Inr (Next, s2\<lparr>trace := trace s2 @ [BrotliError code]\<rparr>)
             else if path_exists (files s2) (dst @ ''.br'')
             then ebind (chmod (files s2) (dst @ ''.br'')) (\<lambda>fs3. Inr (Break, s2\<lparr>files := fs3\<rparr>))
             else Inr (Next, s2\<lparr>trace := trace s2 @ [BrotliMissing (dst @ ''.br'')]\<rparr>)) =
        Inr (c, s')"
    unfolding brotli_step_def Let_def by (auto dest: ebind_Inr)
  obtain code out s2 where
    o: "get_status_output e (brotli_args cfg bc dst) (dst @ ''.br'') (s\<lparr>files := fs1\<rparr>) =
          ((code, out), s2)"
    by (cases "get_status_output e (brotli_args cfg bc dst) (dst @ ''.br'') (s\<lparr>files := fs1\<rparr>)")
      auto
  from get_status_output_trace [OF o]
  have t: "trace s2 = trace s @ [Ran (brotli_args cfg bc dst)]" by simp
  from g o consider "s' = s2\<lparr>trace := trace s2 @ [BrotliError code]\<rparr>"
    | fs3 where "s' = s2\<lparr>files := fs3\<rparr>"
    | "s' = s2\<lparr>trace := trace s2 @ [BrotliMissing (dst @ ''.br'')]\<rparr>"
    by (auto split: if_splits dest: ebind_Inr)
  then show ?thesis using t by cases auto
qed

lemma commands_Ran: "trace s' = tr @ Ran cmd # t \<Longrightarrow> cmd \<in> set (commands (trace s'))"
  by (simp add: commands_def)

lemma compress_trace:
  assumes "compress e cfg ftype dst s = Inr (c, s')" and "ftype \<noteq> ''png''"
  shows "(gzip cfg \<longrightarrow> gzip_cmd dst \<in> set (commands (trace s'))) \<and>
         (brotli_found cfg \<longrightarrow> brotli_args cfg (located cfg) dst \<in> set (commands (trace s')))"
proof -
  from assms obtain s1 where
    g: "(if gzip cfg then gzip_step e dst s else Inr s) = Inr s1" and
    b: "(if brotli_found cfg then brotli_step e cfg (located cfg) dst s1 else Inr (Next, s1)) =
          Inr (c, s')"
    unfolding compress_def located_def by (auto dest: ebind_Inr)
  have t1: "gzip cfg \<Longrightarrow> trace s1 = trace s @ Ran (gzip_cmd dst) # []"
    using g gzip_step_trace [of e dst s s1] by simp
  show ?thesis
  proof (cases "brotli_found cfg")
    case False
    with b have "s' = s1" by simp
    with False t1 show ?thesis by (auto simp: commands_def)
  next
    case True
    with b brotli_step_trace [of e cfg "located cfg" dst s1 c s'] obtain t
      where t: "trace s' = trace s1 @ Ran (brotli_args cfg (located cfg) dst) # t" by auto
    then have "brotli_args cfg (located cfg) dst \<in> set (commands (trace s'))"
      by (rule commands_Ran)
    moreover have "gzip cfg \<Longrightarrow> gzip_cmd dst \<in> set (commands (trace s'))"
    proof -
      assume "gzip cfg"
      from t1 [OF this] t
      have "trace s' = trace s @ Ran (gzip_cmd dst) # (Ran (brotli_args cfg (located cfg) dst) # t)"
        by simp
      then show ?thesis by (rule commands_Ran)
    qed
    ultimately show ?thesis by simp
  qed
qed

lemma install_asset_compress:
  assumes "install_asset e cfg src fname dst s = Inr r"
  shows "\<exists>s4. compress e cfg (file_type fname) dst s4 = Inr r"
proof -
  from assms show ?thesis
    unfolding install_asset_def Let_def
    by (auto dest!: ebind_Inr)
qed

text \<open>
  C10, the claim as stated fails: the gzip command runs only when the argument \<^verbatim>\<open>gzip\<close> is
  true.  In a run with both compressions off the style sheets, which are no \<^verbatim>\<open>png\<close>, are
  installed and no command runs on them.
\<close>

theorem install_html5_without_gzip:
  "file_type ''a.css'' = ''css'' \<and>
   map_sum id (\<lambda>s. (trace s, files s ''www/a.css'', files s ''www/a.css.gz''))
     (install_html5 env_run ''www'' (Some ''copy'') False False fs_run) =
   Inr ([Copied ''a.css'', Copied ''b.css''], Some (File ''a {}''), None)"
  by code_simp

text \<open>
  C10, amended: the compression does nothing for the file type \<^verbatim>\<open>png\<close>.  For every other
  file type, and sidecar paths that are free or hold regular files, it does not fail and
  the commands it runs are the gzip command when the argument \<^verbatim>\<open>gzip\<close> is true, then the
  brotli command when the argument \<^verbatim>\<open>brotli\<close> is true and brotli was located.  Every file
  that the loop body installs without an error and whose type is not \<^verbatim>\<open>png\<close> has had
  these commands run on its destination.
\<close>

theorem compress_excludes_only_png:
  "compress e cfg ''png'' dst s = Inr (Next, s) \<and>
   (ftype \<noteq> ''png'' \<and> regular_or_absent (files s) (dst @ ''.gz'') \<and>
    regular_or_absent (files s) (dst @ ''.br'') \<longrightarrow>
      (\<exists>c s'. compress e cfg ftype dst s = Inr (c, s') \<and>
         commands (trace s') =
           commands (trace s) @ (if gzip cfg then [gzip_cmd dst] else []) @
           (if brotli_found cfg then [brotli_args cfg (located cfg) dst] else []))) \<and>
   (install_asset e cfg src fname dst s = Inr (c, s') \<and> file_type fname \<noteq> ''png'' \<longrightarrow>
      (gzip cfg \<longrightarrow> gzip_cmd dst \<in> set (commands (trace s'))) \<and>
      (brotli_found cfg \<longrightarrow> brotli_args cfg (located cfg) dst \<in> set (commands (trace s'))))"
proof (intro conjI impI)
  show "compress e cfg ''png'' dst s = Inr (Next, s)" by (simp add: compress_def)
next
  assume a: "ftype \<noteq> ''png'' \<and> regular_or_absent (files s) (dst @ ''.gz'') \<and>
    regular_or_absent (files s) (dst @ ''.br'')"
  then have "ftype \<noteq> ''png''" "regular_or_absent (files s) (dst @ ''.gz'')"
    "regular_or_absent (files s) (dst @ ''.br'')" by simp_all
  from compress_effect [OF this, of e cfg]
  show "\<exists>c s'. compress e cfg ftype dst s = Inr (c, s') \<and>
         commands (trace s') =
           commands (trace s) @ (if gzip cfg then [gzip_cmd dst] else []) @
           (if brotli_found cfg then [brotli_args cfg (located cfg) dst] else [])"
    by blast
next
  assume a: "install_asset e cfg src fname dst s = Inr (c, s') \<and> file_type fname \<noteq> ''png''"
  then obtain s4 where c: "compress e cfg (file_type fname) dst s4 = Inr (c, s')"
    using install_asset_compress by blast
  from compress_trace [OF c] a
  have r: "(gzip cfg \<longrightarrow> gzip_cmd dst \<in> set (commands (trace s'))) \<and>
         (brotli_found cfg \<longrightarrow> brotli_args cfg (located cfg) dst \<in> set (commands (trace s')))"
    by simp
  {
    assume "gzip cfg"
    with r show "gzip_cmd dst \<in> set (commands (trace s'))" by simp
  }
  {
    assume "brotli_found cfg"
    with r show "brotli_args cfg (located cfg) dst \<in> set (commands (trace s'))" by simp
  }
qed

theorem compress_excludes_only_png_witness:
  "file_type ''logo.jpg'' = ''jpg'' \<and>
   (\<exists>c s'. compress env_run cfg_all ''jpg'' ''www/logo.jpg'' st_sidecars = Inr (c, s') \<and>
      commands (trace s') =
        [[''gzip'', ''-f'', ''-n'', ''-9'', ''-k'', ''www/logo.jpg''],
         [''/usr/bin/brotli'', ''-k'', ''www/logo.jpg'']]) \<and>
   (\<exists>c s'. install_asset env_run cfg_all ''/src/html5/a.css'' ''a.css'' ''www/a.css'' st_run =
              Inr (c, s') \<and>
      [''gzip'', ''-f'', ''-n'', ''-9'', ''-k'', ''www/a.css''] \<in> set (commands (trace s')) \<and>
      [''/usr/bin/brotli'', ''-k'', ''www/a.css''] \<in> set (commands (trace s')))"
proof -
  have j: "file_type ''logo.jpg'' = ''jpg''" by code_simp
  have k: "file_type ''a.css'' \<noteq> ''png''" by code_simp
  have r: "regular_or_absent (files st_sidecars) (''www/logo.jpg'' @ ''.gz'')"
    "regular_or_absent (files st_sidecars) (''www/logo.jpg'' @ ''.br'')"
    by (simp_all add: regular_or_absent_def st_sidecars_def)
  have o: "gzip cfg_all" "brotli_found cfg_all"
    by (simp_all add: cfg_all_def brotli_found_def)
  have t: "trace st_sidecars = []" by (simp add: st_sidecars_def)
  have g: "gzip_cmd p = [''gzip'', ''-f'', ''-n'', ''-9'', ''-k'', p]"
    "brotli_args cfg_all (located cfg_all) p = [''/usr/bin/brotli'', ''-k'', p]" for p
    by (simp_all add: gzip_cmd_def brotli_args_def located_def cfg_all_def)
  have "map_sum id fst
          (install_asset env_run cfg_all ''/src/html5/a.css'' ''a.css'' ''www/a.css'' st_run) =
        Inr Break"
    by code_simp
  then obtain c s' where
    i: "install_asset env_run cfg_all ''/src/html5/a.css'' ''a.css'' ''www/a.css'' st_run =
          Inr (c, s')"
    by (cases "install_asset env_run cfg_all ''/src/html5/a.css'' ''a.css'' ''www/a.css'' st_run")
      auto
  from compress_excludes_only_png
    [of env_run cfg_all "''www/logo.jpg''" st_sidecars "''jpg''"]
    r o t g
  have w2: "\<exists>c s'. compress env_run cfg_all ''jpg'' ''www/logo.jpg'' st_sidecars = Inr (c, s') \<and>
      commands (trace s') =
        [[''gzip'', ''-f'', ''-n'', ''-9'', ''-k'', ''www/logo.jpg''],
         [''/usr/bin/brotli'', ''-k'', ''www/logo.jpg'']]"
    by (simp add: commands_def)
  from compress_excludes_only_png
    [of env_run cfg_all "''www/a.css''" st_run "''jpg''" "''/src/html5/a.css''" "''a.css''" c s']
    i k o g
  have "[''gzip'', ''-f'', ''-n'', ''-9'', ''-k'', ''www/a.css''] \<in> set (commands (trace s')) \<and>
      [''/usr/bin/brotli'', ''-k'', ''www/a.css''] \<in> set (commands (trace s'))"
    by simp
  with i j w2 show ?thesis by blast
qed

end
